theory Spec2Isabelle
  imports Complex_Main "HOL-Library.Multiset" "HOL-Library.Code_Target_Nat"
begin

section \<open>Outcomes of a computation\<close>

text \<open>
  The sources are C++ compiled with assertions always on (\<open>#undef NDEBUG\<close> precedes
  \<open>#include <assert.h>\<close> in \<open>heap_id.hpp\<close>). A call either returns, or stops on a failed
  \<open>assert\<close>, or leaves the language's defined behaviour (an array index out of bounds, a
  null pointer dereferenced, an indeterminate value read). The last two are the two
  constructors of \<open>error\<close>; a loop that never ends is the value \<open>None\<close> of an
  \<open>outcome\<close>.
\<close>

datatype error = Assertion_failure | Undefined_behaviour

type_synonym 'a result = "error + 'a"

type_synonym 'a outcome = "'a result option"

definition rbind :: "'a result \<Rightarrow> ('a \<Rightarrow> 'b result) \<Rightarrow> 'b result" where
  "rbind m f = (case m of Inl e \<Rightarrow> Inl e | Inr x \<Rightarrow> f x)"

definition obind :: "'a outcome \<Rightarrow> ('a \<Rightarrow> 'b outcome) \<Rightarrow> 'b outcome" where
  "obind m f = (case m of None \<Rightarrow> None | Some (Inl e) \<Rightarrow> Some (Inl e) | Some (Inr x) \<Rightarrow> f x)"

definition c_assert :: "bool \<Rightarrow> unit result" where
  "c_assert c = (if c then Inr () else Inl Assertion_failure)"

text \<open>\<open>ASSERT_IN_RANGE(value, min, max)\<close>: two assertions, in this order.\<close>

definition assert_in_range :: "nat \<Rightarrow> nat \<Rightarrow> nat \<Rightarrow> unit result" where
  "assert_in_range v lo hi = rbind (c_assert (v \<ge> lo)) (\<lambda>_. c_assert (v \<le> hi))"

subsection \<open>\<open>unsigned int\<close>\<close>

text \<open>
  Positions, sizes and handles are \<open>unsigned int\<close>, taken as 32 bits wide. They are
  modelled as natural numbers below \<open>2 ^ 32\<close>, with the wrap-around written out at each
  operation that can leave the range.
\<close>

definition uint_of :: "nat \<Rightarrow> nat" where
  "uint_of n = n mod 4294967296"

definition uint_minus :: "nat \<Rightarrow> nat \<Rightarrow> nat" where
  "uint_minus a b = (a + 4294967296 - b) mod 4294967296"

text \<open>
  Conversion of a \<open>double\<close> to \<open>unsigned int\<close> drops the fractional part. The only
  \<open>double\<close> of the program is \<open>(i - 1) * 0.5\<close> with \<open>i - 1\<close> an \<open>unsigned int\<close>: both the
  conversion of \<open>i - 1\<close> and the halving are exact in binary64, so the product is the
  real number it denotes.
\<close>

definition double_to_uint :: "real \<Rightarrow> nat" where
  "double_to_uint x = nat \<lfloor>x\<rfloor>"

subsection \<open>Arrays, pointers, indeterminate values\<close>

definition array_read :: "'a list \<Rightarrow> nat \<Rightarrow> 'a result" where
  "array_read xs i = (if i < length xs then Inr (xs ! i) else Inl Undefined_behaviour)"

definition array_write :: "'a list \<Rightarrow> nat \<Rightarrow> 'a \<Rightarrow> 'a list result" where
  "array_write xs i v = (if i < length xs then Inr (xs[i := v]) else Inl Undefined_behaviour)"

text \<open>A cell that was never written holds \<open>None\<close>; reading it is undefined.\<close>

definition init_read :: "'a option \<Rightarrow> 'a result" where
  "init_read c = (case c of None \<Rightarrow> Inl Undefined_behaviour | Some v \<Rightarrow> Inr v)"

text \<open>
  An \<open>Element *\<close> is an address or the null pointer. The elements live outside the heap
  (the heap stores pointers, never copies), so every comparison reads them through a
  store: \<open>st a\<close> is the ordering key of the element at address \<open>a\<close>, or \<open>None\<close> when no
  initialised element is there.
\<close>

type_synonym addr = nat

definition deref :: "(addr \<Rightarrow> 'k option) \<Rightarrow> addr option \<Rightarrow> 'k result" where
  "deref st p = (case p of None \<Rightarrow> Inl Undefined_behaviour | Some a \<Rightarrow> init_read (st a))"

section \<open>\<open>Heap_Id\<close> (heap\_id.hpp)\<close>

type_synonym node = "addr option \<times> nat"

record heap_id =
  capacity :: nat
  elements :: "node list"
  nb_elem :: nat
  id_to_pos :: "nat option list"
  id_free :: "nat list"

text \<open>
  The constructor: \<open>new Node[_capacity]\<close> value-initialises each pair (null pointer,
  id 0), \<open>new unsigned int[_capacity]\<close> leaves \<open>id_to_pos\<close> indeterminate, and the loop
  fills \<open>id_free\<close> with \<open>0, 1, ..., capacity - 1\<close>.
\<close>

definition Heap_Id :: "nat \<Rightarrow> heap_id" where
  "Heap_Id cap =
     \<lparr>capacity = cap, elements = replicate cap (None, 0), nb_elem = 0,
      id_to_pos = replicate cap None, id_free = [0..<cap]\<rparr>"

definition lt :: "(addr \<Rightarrow> 'k::ord option) \<Rightarrow> heap_id \<Rightarrow> nat \<Rightarrow> nat \<Rightarrow> bool result" where
  "lt st h pos_1 pos_2 =
     rbind (assert_in_range pos_1 0 (uint_minus (capacity h) 1)) (\<lambda>_.
     rbind (assert_in_range pos_2 0 (uint_minus (capacity h) 1)) (\<lambda>_.
     rbind (array_read (elements h) pos_1) (\<lambda>n1.
     rbind (deref st (fst n1)) (\<lambda>k1.
     rbind (array_read (elements h) pos_2) (\<lambda>n2.
     rbind (deref st (fst n2)) (\<lambda>k2.
     Inr (k1 < k2)))))))"

definition le :: "(addr \<Rightarrow> 'k::ord option) \<Rightarrow> heap_id \<Rightarrow> nat \<Rightarrow> nat \<Rightarrow> bool result" where
  "le st h pos_1 pos_2 =
     rbind (assert_in_range pos_1 0 (uint_minus (capacity h) 1)) (\<lambda>_.
     rbind (assert_in_range pos_2 0 (uint_minus (capacity h) 1)) (\<lambda>_.
     rbind (array_read (elements h) pos_1) (\<lambda>n1.
     rbind (deref st (fst n1)) (\<lambda>k1.
     rbind (array_read (elements h) pos_2) (\<lambda>n2.
     rbind (deref st (fst n2)) (\<lambda>k2.
     Inr (k1 \<le> k2)))))))"

definition get_pos_left_son :: "heap_id \<Rightarrow> nat \<Rightarrow> nat result" where
  "get_pos_left_son h i =
     rbind (assert_in_range i 0 (uint_minus (capacity h) 1)) (\<lambda>_.
     Inr (uint_of (2 * i + 1)))"

definition get_pos_right_son :: "heap_id \<Rightarrow> nat \<Rightarrow> nat result" where
  "get_pos_right_son h i =
     rbind (assert_in_range i 0 (uint_minus (capacity h) 1)) (\<lambda>_.
     Inr (uint_of (2 * i + 2)))"

definition get_pos_father :: "heap_id \<Rightarrow> nat \<Rightarrow> nat result" where
  "get_pos_father h i =
     rbind (assert_in_range i 0 (uint_minus (capacity h) 1)) (\<lambda>_.
     let pos_father = (if i = 0 then 0 else double_to_uint (real (uint_minus i 1) * 0.5)) in
     rbind (assert_in_range pos_father 0 (uint_minus (capacity h) 1)) (\<lambda>_.
     Inr pos_father))"

definition swap :: "heap_id \<Rightarrow> nat \<Rightarrow> nat \<Rightarrow> heap_id result" where
  "swap h pos_a pos_b =
     rbind (assert_in_range pos_a 0 (uint_minus (capacity h) 1)) (\<lambda>_.
     rbind (assert_in_range pos_b 0 (uint_minus (capacity h) 1)) (\<lambda>_.
     let temp_pos_a = pos_a in
     rbind (array_read (elements h) pos_a) (\<lambda>node_a.
     rbind (array_write (id_to_pos h) (snd node_a) (Some pos_b)) (\<lambda>id_to_pos1.
     rbind (array_read (elements h) pos_b) (\<lambda>node_b.
     rbind (array_write id_to_pos1 (snd node_b) (Some temp_pos_a)) (\<lambda>id_to_pos2.
     let buffer = node_a in
     Inr (h\<lparr>elements := (elements h)[pos_a := node_b, pos_b := buffer],
            id_to_pos := id_to_pos2\<rparr>)))))))"


text \<open>
  \<open>is_valid\<close> returns \<open>true\<close> in its first statement; the checking loop that follows in
  the source is kept here as \<open>is_valid_loop\<close>, the code \<open>is_valid\<close> never reaches.
\<close>

definition is_valid_step :: "(addr \<Rightarrow> 'k::ord option) \<Rightarrow> heap_id \<Rightarrow> nat \<Rightarrow> bool result" where
  "is_valid_step st h i =
     rbind (get_pos_right_son h i) (\<lambda>r.
     rbind (if r < nb_elem h
            then rbind (get_pos_right_son h i) (\<lambda>r'. rbind (le st h i r') (\<lambda>b. Inr (\<not> b)))
            else Inr False) (\<lambda>return_false.
     if return_false then Inr False else
     rbind (get_pos_left_son h i) (\<lambda>l.
     rbind (if l < nb_elem h
            then rbind (get_pos_left_son h i) (\<lambda>l'. rbind (le st h i l') (\<lambda>b. Inr (\<not> b)))
            else Inr False) (\<lambda>return_false.
     if return_false then Inr False else Inr True))))"

function is_valid_loop :: "(addr \<Rightarrow> 'k::ord option) \<Rightarrow> heap_id \<Rightarrow> nat \<Rightarrow> bool result" where
  "is_valid_loop st h i =
     (if i < nb_elem h
      then (case is_valid_step st h i of
              Inl e \<Rightarrow> Inl e
            | Inr ok \<Rightarrow> if ok then is_valid_loop st h (i + 1) else Inr False)
      else Inr True)"
  by pat_completeness auto
termination
  by (relation "measure (\<lambda>(st, h, i). nb_elem h - i)") auto

text \<open>A \<open>return\<close> statement followed by more statements: the rest is not run.\<close>

definition return_then :: "'a \<Rightarrow> 'a \<Rightarrow> 'a" where
  "return_then v rest = v"

definition is_valid :: "(addr \<Rightarrow> 'k::ord option) \<Rightarrow> heap_id \<Rightarrow> bool result" where
  "is_valid st h = return_then (Inr True) (is_valid_loop st h 0)"

definition assert_is_valid :: "(addr \<Rightarrow> 'k::ord option) \<Rightarrow> heap_id \<Rightarrow> unit result" where
  "assert_is_valid st h = rbind (is_valid st h) c_assert"

subsection \<open>\<open>raise\<close>\<close>

text \<open>
  One turn of the loop of \<open>raise\<close>: the swap, then the two assignments. The loop's
  condition is \<open>pos_father >= 0 && lt(pos, pos_father)\<close>; its first conjunct holds of every
  \<open>unsigned int\<close>.
\<close>

definition raise_step :: "heap_id \<Rightarrow> nat \<Rightarrow> nat \<Rightarrow> (heap_id \<times> nat \<times> nat) result" where
  "raise_step h pos pos_father =
     rbind (swap h pos pos_father) (\<lambda>h'.
     let pos' = pos_father in
     rbind (get_pos_father h' pos') (\<lambda>pos_father'.
     Inr (h', pos', pos_father')))"

text \<open>
  At the root \<open>pos\<close> and \<open>pos_father\<close> are both 0 and the loop ends only if the
  element there is not below itself, which an \<open>operator<\<close> need not grant: the loop is
  a partial function, \<open>None\<close> where it does not return.
\<close>

partial_function (option) raise_loop :: "(addr \<Rightarrow> 'k::ord option) \<Rightarrow> heap_id \<Rightarrow> nat \<Rightarrow> nat \<Rightarrow> heap_id outcome" where
  "raise_loop st h pos pos_father =
     (case (if pos_father \<ge> 0 then lt st h pos pos_father else Inr False) of
        Inl e \<Rightarrow> Some (Inl e)
      | Inr continue \<Rightarrow>
          if continue
          then (case raise_step h pos pos_father of
                  Inl e \<Rightarrow> Some (Inl e)
                | Inr (h', pos', pos_father') \<Rightarrow> raise_loop st h' pos' pos_father')
          else Some (Inr h))"

declare raise_loop.simps [code]

definition raise :: "(addr \<Rightarrow> 'k::ord option) \<Rightarrow> heap_id \<Rightarrow> nat \<Rightarrow> heap_id outcome" where
  "raise st h pos =
     obind (Some (assert_in_range pos 0 (uint_minus (capacity h) 1))) (\<lambda>_.
     obind (Some (get_pos_father h pos)) (\<lambda>pos_father.
     obind (raise_loop st h pos pos_father) (\<lambda>h'.
     obind (Some (assert_is_valid st h')) (\<lambda>_.
     Some (Inr h')))))"

subsection \<open>\<open>lower\<close>\<close>

text \<open>
  The condition of the loop of \<open>lower\<close>, with the short-circuit evaluation of \<open>&&\<close> and
  \<open>||\<close>: a comparison is made only when the position before it is below \<open>nb_elem\<close>.
\<close>

definition lower_cond :: "(addr \<Rightarrow> 'k::ord option) \<Rightarrow> heap_id \<Rightarrow> nat \<Rightarrow> nat \<Rightarrow> nat \<Rightarrow> bool result" where
  "lower_cond st h pos pos_left_son pos_right_son =
     rbind (if pos_left_son < nb_elem h then lt st h pos_left_son pos else Inr False) (\<lambda>left.
     if left then Inr True
     else if pos_right_son < nb_elem h then lt st h pos_right_son pos else Inr False)"

definition lower_step :: "(addr \<Rightarrow> 'k::ord option) \<Rightarrow> heap_id \<Rightarrow> nat \<Rightarrow> nat \<Rightarrow> nat \<Rightarrow> (heap_id \<times> nat \<times> nat \<times> nat) result" where
  "lower_step st h pos pos_left_son pos_right_son =
     rbind (if pos_right_son < nb_elem h then lt st h pos_right_son pos_left_son else Inr False) (\<lambda>right.
     let pos_to_swap_with = (if right then pos_right_son else pos_left_son) in
     rbind (swap h pos pos_to_swap_with) (\<lambda>h'.
     let pos' = pos_to_swap_with in
     rbind (get_pos_left_son h' pos') (\<lambda>pos_left_son'.
     rbind (get_pos_right_son h' pos') (\<lambda>pos_right_son'.
     Inr (h', pos', pos_left_son', pos_right_son')))))"

text \<open>
  With 32-bit positions \<open>2 * pos + 1\<close> and \<open>2 * pos + 2\<close> wrap around, so a son can lie
  before its father and nothing bounds the number of turns for every heap: the loop is
  a partial function, \<open>None\<close> where it does not return.
\<close>

partial_function (option) lower_loop :: "(addr \<Rightarrow> 'k::ord option) \<Rightarrow> heap_id \<Rightarrow> nat \<Rightarrow> nat \<Rightarrow> nat \<Rightarrow> heap_id outcome" where
  "lower_loop st h pos pos_left_son pos_right_son =
     (case lower_cond st h pos pos_left_son pos_right_son of
        Inl e \<Rightarrow> Some (Inl e)
      | Inr continue \<Rightarrow>
          if continue
          then (case lower_step st h pos pos_left_son pos_right_son of
                  Inl e \<Rightarrow> Some (Inl e)
                | Inr (h', pos', pos_left_son', pos_right_son') \<Rightarrow>
                    lower_loop st h' pos' pos_left_son' pos_right_son')
          else Some (Inr h))"

declare lower_loop.simps [code]

definition lower :: "(addr \<Rightarrow> 'k::ord option) \<Rightarrow> heap_id \<Rightarrow> nat \<Rightarrow> heap_id outcome" where
  "lower st h pos =
     obind (Some (assert_in_range pos 0 (uint_minus (capacity h) 1))) (\<lambda>_.
     obind (Some (get_pos_left_son h pos)) (\<lambda>pos_left_son.
     obind (Some (get_pos_right_son h pos)) (\<lambda>pos_right_son.
     obind (lower_loop st h pos pos_left_son pos_right_son) (\<lambda>h'.
     obind (Some (assert_is_valid st h')) (\<lambda>_.
     Some (Inr h'))))))"

subsection \<open>The public methods\<close>

definition is_empty :: "heap_id \<Rightarrow> bool" where
  "is_empty h = (nb_elem h = 0)"

text \<open>\<open>push(v)\<close> takes the address of \<open>v\<close> and returns the id with the new state.\<close>

definition push :: "(addr \<Rightarrow> 'k::ord option) \<Rightarrow> heap_id \<Rightarrow> addr \<Rightarrow> (nat \<times> heap_id) outcome" where
  "push st h v =
     obind (Some (assert_is_valid st h)) (\<lambda>_.
     obind (Some (c_assert (nb_elem h < capacity h))) (\<lambda>_.
     obind (Some (array_read (id_free h) (nb_elem h))) (\<lambda>free_id.
     let n = (Some v, free_id) in
     obind (Some (array_write (elements h) (nb_elem h) n)) (\<lambda>elements1.
     obind (Some (array_write (id_to_pos h) (snd n) (Some (nb_elem h)))) (\<lambda>id_to_pos1.
     let h1 = h\<lparr>elements := elements1, id_to_pos := id_to_pos1,
                  nb_elem := uint_of (nb_elem h + 1)\<rparr> in
     obind (raise st h1 (uint_minus (nb_elem h1) 1)) (\<lambda>h2.
     obind (Some (assert_is_valid st h2)) (\<lambda>_.
     Some (Inr (snd n, h2)))))))))"

text \<open>
  \<open>pop()\<close> returns a reference to the popped element: its address, which must not be
  null, with the new state.
\<close>

definition pop :: "(addr \<Rightarrow> 'k::ord option) \<Rightarrow> heap_id \<Rightarrow> (addr \<times> heap_id) outcome" where
  "pop st h =
     obind (Some (assert_is_valid st h)) (\<lambda>_.
     obind (Some (swap h 0 (uint_minus (nb_elem h) 1))) (\<lambda>h1.
     obind (Some (array_read (elements h1) (uint_minus (nb_elem h1) 1))) (\<lambda>popped_node.
     let popped_element = fst popped_node in
     let h2 = h1\<lparr>nb_elem := uint_minus (nb_elem h1) 1\<rparr> in
     obind (lower st h2 0) (\<lambda>h3.
     obind (Some (assert_is_valid st h3)) (\<lambda>_.
     obind (Some (init_read popped_element)) (\<lambda>a.
     Some (Inr (a, h3))))))))"

text \<open>
  \<open>reposition(id)\<close> reads \<open>id_to_pos[id]\<close> twice, the second time after \<open>raise\<close> has
  moved the nodes.
\<close>

definition reposition :: "(addr \<Rightarrow> 'k::ord option) \<Rightarrow> heap_id \<Rightarrow> nat \<Rightarrow> heap_id outcome" where
  "reposition st h ident =
     obind (Some (rbind (array_read (id_to_pos h) ident) init_read)) (\<lambda>pos.
     obind (raise st h pos) (\<lambda>h1.
     obind (Some (rbind (array_read (id_to_pos h1) ident) init_read)) (\<lambda>pos1.
     lower st h1 pos1)))"

section \<open>\<open>Graph::print_dijkstra\<close> (graph.cpp)\<close>

text \<open>
  \<open>graph.hpp\<close> is not among the sources. \<open>print_dijkstra\<close> uses two members of \<open>Graph\<close>:
  \<open>nbr_vertices\<close>, and \<open>vertices\<close>, where \<open>vertices[v].second\<close> is the sequence of the edges
  that leave \<open>v\<close> and an edge \<open>e\<close> is a pair of the target \<open>e.first\<close> and the weight
  \<open>e.second\<close>. The graph is taken as a parameter with these two members; \<open>vertices g ! v\<close>
  stands for \<open>vertices[v].second\<close>.

\<close>

subsection \<open>\<open>float\<close>\<close>

text \<open>
  Distances are \<open>float\<close>: IEEE 754 binary32, where a sum is rounded to the nearest value
  of the format and a tie goes to the even significand. The weight \<open>e.second\<close> is taken
  to be a \<open>float\<close> as well, the type of the distance it is added to, and the sum to be
  evaluated in \<open>float\<close>, not in a wider format.

  A finite value is the real number it denotes, so the two zeros are one value. They
  compare equal and add alike, and no distance is the negative zero: the first distance
  is \<open>+0\<close>, and under this rounding a sum is \<open>-0\<close> only when both terms are.
\<close>

datatype float = Finite real | Plus_infinity | Minus_infinity | Not_a_number

text \<open>
  The spacing of the format around \<open>a > 0\<close>: the power of two \<open>q\<close> with
  \<open>2 ^ 23 * q \<le> a < 2 ^ 24 * q\<close>, but no less than \<open>2 ^ -149\<close> (the subnormal values)
  and no more than \<open>2 ^ 104\<close> (the largest finite values). The search starts from 1,
  doubling at most 104 times or halving at most 149 times.
\<close>

fun quantum_up :: "nat \<Rightarrow> real \<Rightarrow> real \<Rightarrow> real" where
  "quantum_up n q a =
     (if n = 0 \<or> a < 16777216 * q then q else quantum_up (n - 1) (2 * q) a)"

fun quantum_down :: "nat \<Rightarrow> real \<Rightarrow> real \<Rightarrow> real" where
  "quantum_down n q a =
     (if n = 0 \<or> 8388608 * q \<le> a then q else quantum_down (n - 1) (q / 2) a)"

definition quantum :: "real \<Rightarrow> real" where
  "quantum a = (if 16777216 \<le> a then quantum_up 104 1 a else quantum_down 149 1 a)"

text \<open>The nearest integer, the even one of the two when \<open>x\<close> is half-way.\<close>

definition round_half_even :: "real \<Rightarrow> int" where
  "round_half_even x =
     (let f = \<lfloor>x\<rfloor>; d = x - of_int f in
      if d < 1 / 2 then f else if 1 / 2 < d then f + 1 else if even f then f else f + 1)"

text \<open>
  Rounding a real number to the format: to the nearest multiple of the spacing, and to
  an infinity when that multiple reaches \<open>2 ^ 128\<close>.
\<close>

definition round_to_float :: "real \<Rightarrow> float" where
  "round_to_float x =
     (if x = 0 then Finite 0
      else
        (let q = quantum \<bar>x\<bar>;
             y = of_int (round_half_even (x / q)) * q in
         if 340282366920938463463374607431768211456 \<le> y then Plus_infinity
         else if y \<le> - 340282366920938463463374607431768211456 then Minus_infinity
         else Finite y))"

definition is_float :: "float \<Rightarrow> bool" where
  "is_float f = (case f of Finite x \<Rightarrow> round_to_float x = Finite x | _ \<Rightarrow> True)"

text \<open>\<open>x + y\<close> on \<open>float\<close>.\<close>

fun float_add :: "float \<Rightarrow> float \<Rightarrow> float" where
  "float_add (Finite x) (Finite y) = round_to_float (x + y)"
| "float_add Not_a_number _ = Not_a_number"
| "float_add _ Not_a_number = Not_a_number"
| "float_add Plus_infinity Minus_infinity = Not_a_number"
| "float_add Minus_infinity Plus_infinity = Not_a_number"
| "float_add Plus_infinity _ = Plus_infinity"
| "float_add _ Plus_infinity = Plus_infinity"
| "float_add Minus_infinity _ = Minus_infinity"
| "float_add _ Minus_infinity = Minus_infinity"

text \<open>
  \<open>x < y\<close> and \<open>x <= y\<close> on \<open>float\<close>; \<open>x > y\<close> is \<open>y < x\<close>. Every comparison with a NaN
  is false.
\<close>

instantiation float :: ord
begin

fun less_float :: "float \<Rightarrow> float \<Rightarrow> bool" where
  "less_float (Finite x) (Finite y) = (x < y)"
| "less_float Not_a_number _ = False"
| "less_float _ Not_a_number = False"
| "less_float Plus_infinity _ = False"
| "less_float _ Plus_infinity = True"
| "less_float _ Minus_infinity = False"
| "less_float Minus_infinity _ = True"

fun less_eq_float :: "float \<Rightarrow> float \<Rightarrow> bool" where
  "less_eq_float (Finite x) (Finite y) = (x \<le> y)"
| "less_eq_float Not_a_number _ = False"
| "less_eq_float _ Not_a_number = False"
| "less_eq_float _ Plus_infinity = True"
| "less_eq_float Minus_infinity _ = True"
| "less_eq_float Plus_infinity _ = False"
| "less_eq_float _ Minus_infinity = False"

instance ..

end

subsection \<open>The tables\<close>

type_synonym edge = "nat \<times> float"

record graph =
  nbr_vertices :: nat
  vertices :: "edge list list"

record vertex_distance =
  vd_i :: nat
  vd_distance :: float
  vd_from :: nat

definition id_undefined :: int where
  "id_undefined = - 1"

definition id_treated :: int where
  "id_treated = - 2"

text \<open>
  The conversions between \<open>unsigned int\<close> (what \<open>push\<close> returns and \<open>reposition\<close> takes)
  and \<open>int\<close> (what \<open>vertices_ids\<close> holds), both 32 bits wide.
\<close>

definition int_of_uint :: "nat \<Rightarrow> int" where
  "int_of_uint u = (if u < 2147483648 then int u else int u - 4294967296)"

definition uint_of_int :: "int \<Rightarrow> nat" where
  "uint_of_int i = nat (i mod 4294967296)"

record dijkstra_state =
  heap :: heap_id
  vertices_ids :: "int list"
  vertices_dist :: "vertex_distance option list"

text \<open>
  The heap holds pointers into \<open>vertices_dist\<close>: the address of \<open>vertices_dist[v]\<close> is \<open>v\<close>,
  and the heap compares two elements by their \<open>distance\<close> as it is at that moment. The
  default constructor of \<open>Vertex_Distance\<close> initialises nothing, so a cell that was
  never assigned holds \<open>None\<close>.
\<close>

definition dist_store :: "vertex_distance option list \<Rightarrow> addr \<Rightarrow> float option" where
  "dist_store vds a = (if a < length vds then map_option vd_distance (vds ! a) else None)"

text \<open>Lines 94 to 104: the tables and the heap with the start vertex pushed.\<close>

definition dijkstra_init :: "graph \<Rightarrow> nat \<Rightarrow> dijkstra_state outcome" where
  "dijkstra_init g from_v =
     (let heap0 = Heap_Id (nbr_vertices g);
          vertices_ids0 = replicate (nbr_vertices g) id_undefined;
          vertices_dist0 = replicate (nbr_vertices g) None in
      obind (Some (array_write vertices_dist0 from_v
               (Some \<lparr>vd_i = from_v, vd_distance = Finite 0, vd_from = from_v\<rparr>))) (\<lambda>vertices_dist1.
      obind (push (dist_store vertices_dist1) heap0 from_v) (\<lambda>(ident, heap1).
      obind (Some (array_write vertices_ids0 from_v (int_of_uint ident))) (\<lambda>vertices_ids1.
      Some (Inr \<lparr>heap = heap1, vertices_ids = vertices_ids1, vertices_dist = vertices_dist1\<rparr>)))))"

text \<open>Lines 120 and 121: the two assignments of the \<open>else if\<close> branch.\<close>

definition update_distance :: "vertex_distance option list \<Rightarrow> vertex_distance \<Rightarrow> vertex_distance \<Rightarrow> edge \<Rightarrow> vertex_distance option list" where
  "update_distance vds target vd e =
     vds[fst e := Some (target\<lparr>vd_distance := float_add (vd_distance vd) (snd e), vd_from := vd_i vd\<rparr>)]"

text \<open>Lines 113 to 123: the body of the \<open>for\<close> loop, for the edge \<open>e\<close>.\<close>

definition relax_edge :: "dijkstra_state \<Rightarrow> vertex_distance \<Rightarrow> edge \<Rightarrow> dijkstra_state outcome" where
  "relax_edge s vd e =
     obind (Some (array_read (vertices_ids s) (fst e))) (\<lambda>vid.
     if vid = id_undefined
     then
       obind (Some (array_write (vertices_dist s) (fst e)
                (Some \<lparr>vd_i = fst e, vd_distance = float_add (vd_distance vd) (snd e),
                       vd_from = vd_i vd\<rparr>))) (\<lambda>vds.
       obind (push (dist_store vds) (heap s) (fst e)) (\<lambda>(ident, heap1).
       obind (Some (array_write (vertices_ids s) (fst e) (int_of_uint ident))) (\<lambda>ids.
       Some (Inr \<lparr>heap = heap1, vertices_ids = ids, vertices_dist = vds\<rparr>))))
     else
       obind (Some (rbind (array_read (vertices_dist s) (fst e)) init_read)) (\<lambda>target.
       if vd_distance target > float_add (vd_distance vd) (snd e)
       then
         (let vds = update_distance (vertices_dist s) target vd e in
          obind (reposition (dist_store vds) (heap s) (uint_of_int vid)) (\<lambda>heap1.
          Some (Inr (s\<lparr>heap := heap1, vertices_dist := vds\<rparr>))))
       else Some (Inr s)))"

text \<open>The \<open>for\<close> loop over the edges of the popped vertex, in their order.\<close>

fun relax_edges :: "dijkstra_state \<Rightarrow> vertex_distance \<Rightarrow> edge list \<Rightarrow> dijkstra_state outcome" where
  "relax_edges s vd [] = Some (Inr s)"
| "relax_edges s vd (e # es) =
     (case relax_edge s vd e of
        None \<Rightarrow> None
      | Some (Inl err) \<Rightarrow> Some (Inl err)
      | Some (Inr s') \<Rightarrow> relax_edges s' vd es)"

text \<open>
  Lines 110 to 125: one turn of the \<open>while\<close> loop. \<open>vd\<close> is a copy of the popped
  element, made when it is popped.
\<close>

definition dijkstra_iteration :: "graph \<Rightarrow> dijkstra_state \<Rightarrow> dijkstra_state outcome" where
  "dijkstra_iteration g s =
     obind (pop (dist_store (vertices_dist s)) (heap s)) (\<lambda>(a, heap1).
     obind (Some (rbind (array_read (vertices_dist s) a) init_read)) (\<lambda>vd.
     obind (Some (array_read (vertices g) (vd_i vd))) (\<lambda>edges.
     obind (relax_edges (s\<lparr>heap := heap1\<rparr>) vd edges) (\<lambda>s'.
     obind (Some (array_write (vertices_ids s') (vd_i vd) id_treated)) (\<lambda>ids.
     Some (Inr (s'\<lparr>vertices_ids := ids\<rparr>)))))))"

partial_function (option) dijkstra_loop :: "graph \<Rightarrow> dijkstra_state \<Rightarrow> dijkstra_state outcome" where
  "dijkstra_loop g s =
     (if \<not> is_empty (heap s)
      then (case dijkstra_iteration g s of
              None \<Rightarrow> None
            | Some (Inl err) \<Rightarrow> Some (Inl err)
            | Some (Inr s') \<Rightarrow> dijkstra_loop g s')
      else Some (Inr s))"

declare dijkstra_loop.simps [code]

text \<open>
  What \<open>print_dijkstra\<close> writes to \<open>cout\<close>: a line \<open>n<i> <distance>\<close> for each turn of
  the printing loop, then the line \<open>n0\<close>.
\<close>

datatype output_line = Vertex_line nat float | Literal_n0

partial_function (option) print_loop :: "vertex_distance option list \<Rightarrow> nat \<Rightarrow> nat \<Rightarrow> output_line list \<Rightarrow> output_line list outcome" where
  "print_loop vds from_v i_current out =
     (if i_current \<noteq> from_v
      then (case rbind (array_read vds i_current) init_read of
              Inl err \<Rightarrow> Some (Inl err)
            | Inr vd \<Rightarrow>
                print_loop vds from_v (vd_from vd) (out @ [Vertex_line (vd_i vd) (vd_distance vd)]))
      else Some (Inr out))"

declare print_loop.simps [code]

text \<open>Lines 87 to 126: the assertions, the tables and the loop that fills them.\<close>

definition compute_distances :: "graph \<Rightarrow> nat \<Rightarrow> nat \<Rightarrow> dijkstra_state outcome" where
  "compute_distances g from_v to_v =
     obind (Some (c_assert (from_v < nbr_vertices g))) (\<lambda>_.
     obind (Some (c_assert (to_v < nbr_vertices g))) (\<lambda>_.
     obind (dijkstra_init g from_v) (\<lambda>s0.
     dijkstra_loop g s0)))"

definition print_dijkstra :: "graph \<Rightarrow> nat \<Rightarrow> nat \<Rightarrow> output_line list outcome" where
  "print_dijkstra g from_v to_v =
     obind (compute_distances g from_v to_v) (\<lambda>s.
     obind (print_loop (vertices_dist s) from_v to_v []) (\<lambda>out.
     Some (Inr (out @ [Literal_n0]))))"

section \<open>A caller of the heap\<close>

text \<open>
  The claims about \<open>Heap_Id\<close> speak of sequences of calls. A caller owns the elements
  (the store), may assign an element's key between two calls, and keeps what the calls
  returned: for each \<open>push\<close> the element and the id it got, and the popped elements, both
  in the order of the calls.
\<close>

datatype 'k heap_call = Push addr | Pop | Assign addr 'k | Reposition nat

record 'k caller =
  store :: "addr \<Rightarrow> 'k option"
  the_heap :: heap_id
  pushed :: "(addr \<times> nat) list"
  popped :: "addr list"

fun call :: "('k::ord) caller \<Rightarrow> 'k heap_call \<Rightarrow> 'k caller outcome" where
  "call c (Push v) =
     obind (push (store c) (the_heap c) v) (\<lambda>(ident, h).
     Some (Inr (c\<lparr>the_heap := h, pushed := pushed c @ [(v, ident)]\<rparr>)))"
| "call c Pop =
     obind (pop (store c) (the_heap c)) (\<lambda>(a, h).
     Some (Inr (c\<lparr>the_heap := h, popped := popped c @ [a]\<rparr>)))"
| "call c (Assign a k) = Some (Inr (c\<lparr>store := (store c)(a \<mapsto> k)\<rparr>))"
| "call c (Reposition ident) =
     obind (reposition (store c) (the_heap c) ident) (\<lambda>h.
     Some (Inr (c\<lparr>the_heap := h\<rparr>)))"

fun calls :: "('k::ord) caller \<Rightarrow> 'k heap_call list \<Rightarrow> 'k caller outcome" where
  "calls c [] = Some (Inr c)"
| "calls c (x # xs) =
     (case call c x of
        None \<Rightarrow> None
      | Some (Inl err) \<Rightarrow> Some (Inl err)
      | Some (Inr c') \<Rightarrow> calls c' xs)"

definition new_caller :: "(addr \<Rightarrow> 'k option) \<Rightarrow> nat \<Rightarrow> 'k caller" where
  "new_caller st cap = \<lparr>store = st, the_heap = Heap_Id cap, pushed = [], popped = []\<rparr>"

text \<open>
  The ordering key at a position, and the heap order: each position below \<open>nb_elem\<close>
  other than the root holds a key that is not below its father's.
\<close>

definition key_at :: "(addr \<Rightarrow> 'k option) \<Rightarrow> heap_id \<Rightarrow> nat \<Rightarrow> 'k option" where
  "key_at st h i = (case fst (elements h ! i) of None \<Rightarrow> None | Some a \<Rightarrow> st a)"

definition heap_ordered :: "(addr \<Rightarrow> 'k::linorder option) \<Rightarrow> heap_id \<Rightarrow> bool" where
  "heap_ordered st h =
     list_all (\<lambda>j. case (key_at st h ((j - 1) div 2), key_at st h j) of
                      (Some kf, Some kj) \<Rightarrow> kf \<le> kj
                    | _ \<Rightarrow> False)
       [1..<nb_elem h]"

text \<open>Running \<open>n\<close> turns of the \<open>while\<close> loop of \<open>print_dijkstra\<close>.\<close>

fun dijkstra_turns :: "graph \<Rightarrow> nat \<Rightarrow> dijkstra_state \<Rightarrow> dijkstra_state outcome" where
  "dijkstra_turns g 0 s = Some (Inr s)"
| "dijkstra_turns g (Suc n) s =
     (case dijkstra_iteration g s of
        None \<Rightarrow> None
      | Some (Inl err) \<Rightarrow> Some (Inl err)
      | Some (Inr s') \<Rightarrow> dijkstra_turns g n s')"

section \<open>Inputs used below\<close>

definition disordered_store :: "addr \<Rightarrow> nat option" where
  "disordered_store = map_of [(0, 5), (1, 3)]"

definition disordered_heap :: heap_id where
  "disordered_heap =
     \<lparr>capacity = 2, elements = [(Some 0, 0), (Some 1, 1)], nb_elem = 2,
      id_to_pos = [Some 1, Some 0], id_free = [0, 1]\<rparr>"

definition keys_1_5 :: "addr \<Rightarrow> nat option" where
  "keys_1_5 = map_of [(0, 1), (1, 5)]"

definition keys_handle_reuse :: "addr \<Rightarrow> nat option" where
  "keys_handle_reuse = map_of [(0, 1), (1, 2), (2, 10), (3, 21)]"

definition spec_example_graph :: graph where
  "spec_example_graph =
     \<lparr>nbr_vertices = 4, vertices = [[(1, Finite 4), (2, Finite 1)], [(3, Finite 1)], [(1, Finite 1), (3, Finite 5)], []]\<rparr>"

definition lost_vertex_graph :: graph where
  "lost_vertex_graph =
     \<lparr>nbr_vertices = 6,
      vertices = [[(1, Finite 1), (2, Finite 5)], [(3, Finite 6), (4, Finite 5)], [(3, Finite 0)], [], [(5, Finite 1)], []]\<rparr>"

definition two_isolated_vertices :: graph where
  "two_isolated_vertices = \<lparr>nbr_vertices = 2, vertices = [[], []]\<rparr>"

definition early_finalized_graph :: graph where
  "early_finalized_graph =
     \<lparr>nbr_vertices = 5,
      vertices = [[(1, Finite 1), (2, Finite 2), (3, Finite 10)], [(4, Finite 20), (3, Finite 0)], [], [(2, Finite 0)], []]\<rparr>"

definition far_vertices_graph :: graph where
  "far_vertices_graph =
     \<lparr>nbr_vertices = 3, vertices = [[(1, Finite 16777216)], [(2, Finite 1)], []]\<rparr>"

definition weights_are_floats :: "graph \<Rightarrow> bool" where
  "weights_are_floats g = list_all (list_all (\<lambda>e. is_float (snd e))) (vertices g)"

text \<open>
  Keys for a heap of more than \<open>2 ^ 31\<close> elements: 1 at the address \<open>2 ^ 31\<close>, 0 at
  every other address.
\<close>

definition one_heavy :: "addr \<Rightarrow> nat option" where
  "one_heavy a = Some (if a = 2147483648 then 1 else 0)"

section \<open>Invariants of the heap\<close>

text \<open>
  What the proofs below keep track of. \<open>wf_heap\<close>: the arrays have the size of the
  capacity, the ids stored in the nodes index \<open>id_to_pos\<close>, and each position below
  \<open>nb_elem\<close> points to an element with a key. \<open>ordered\<close>: the heap order, on the keys
  themselves. \<open>live\<close>: the addresses in the heap, by position. \<open>swapped\<close> and
  \<open>appended\<close>: the states that \<open>swap\<close> and the first half of \<open>push\<close> build. \<open>filled\<close> and
  \<open>on_spine\<close> describe the states of the run that shows the wrap-around of the son
  positions: the addresses \<open>0, 1, 2, ...\<close> pushed in this order, and the element with
  key 1 sinking from position \<open>p\<close>.
\<close>

definition the_key :: "(addr \<Rightarrow> 'k option) \<Rightarrow> heap_id \<Rightarrow> nat \<Rightarrow> 'k" where
  "the_key st h i = the (key_at st h i)"

definition live :: "heap_id \<Rightarrow> addr list" where
  "live h = map (\<lambda>n. the (fst n)) (take (nb_elem h) (elements h))"

definition wf_heap :: "(addr \<Rightarrow> 'k option) \<Rightarrow> heap_id \<Rightarrow> bool" where
  "wf_heap st h \<longleftrightarrow>
     capacity h < 4294967296 \<and> length (elements h) = capacity h \<and>
     length (id_to_pos h) = capacity h \<and> id_free h = [0..<capacity h] \<and>
     nb_elem h \<le> capacity h \<and>
     (\<forall>i<capacity h. snd (elements h ! i) < capacity h) \<and>
     (\<forall>i<nb_elem h. key_at st h i \<noteq> None)"

definition ordered :: "(addr \<Rightarrow> 'k::linorder option) \<Rightarrow> heap_id \<Rightarrow> bool" where
  "ordered st h \<longleftrightarrow> (\<forall>j. 0 < j \<and> j < nb_elem h \<longrightarrow> the_key st h ((j - 1) div 2) \<le> the_key st h j)"

definition swapped :: "heap_id \<Rightarrow> nat \<Rightarrow> nat \<Rightarrow> heap_id" where
  "swapped h i j =
     h\<lparr>elements := (elements h)[i := elements h ! j, j := elements h ! i],
       id_to_pos := (id_to_pos h)[snd (elements h ! i) := Some j, snd (elements h ! j) := Some i]\<rparr>"

definition appended :: "heap_id \<Rightarrow> addr \<Rightarrow> heap_id" where
  "appended h v =
     h\<lparr>elements := (elements h)[nb_elem h := (Some v, nb_elem h)],
       id_to_pos := (id_to_pos h)[nb_elem h := Some (nb_elem h)],
       nb_elem := nb_elem h + 1\<rparr>"

definition filled :: "nat \<Rightarrow> heap_id \<Rightarrow> bool" where
  "filled m h \<longleftrightarrow> wf_heap one_heavy h \<and> nb_elem h = m \<and> (\<forall>i<m. fst (elements h ! i) = Some i)"

definition on_spine :: "nat \<Rightarrow> heap_id \<Rightarrow> bool" where
  "on_spine p h \<longleftrightarrow>
     wf_heap one_heavy h \<and> capacity h = 2147483649 \<and> nb_elem h = 2147483648 \<and>
     (\<forall>i<2147483648. \<exists>a. fst (elements h ! i) = Some a \<and> (a = 2147483648 \<longleftrightarrow> i = p))"

section \<open>Basic facts\<close>

lemma rbind_simps:
  "rbind (Inr x) f = f x" "rbind (Inl e) f = Inl e"
  by (simp_all add: rbind_def)

lemma obind_simps:
  "obind (Some (Inr x)) g = g x" "obind (Some (Inl e)) g = Some (Inl e)" "obind None g = None"
  by (simp_all add: obind_def)

lemma c_assert_simps:
  "c_assert True = Inr ()" "c_assert False = Inl Assertion_failure"
  by (simp_all add: c_assert_def)

lemma assert_in_range_eq:
  "assert_in_range v 0 hi = (if v \<le> hi then Inr () else Inl Assertion_failure)"
  by (simp add: assert_in_range_def c_assert_def rbind_def)

lemma double_to_uint_half: "double_to_uint (real n * 0.5) = n div 2"
proof -
  have "\<lfloor>real n / real 2\<rfloor> = int (n div 2)" by (rule floor_divide_of_nat_eq)
  then show ?thesis by (simp add: double_to_uint_def)
qed

lemma uint_minus_1: "0 < n \<Longrightarrow> uint_minus n 1 = (n - 1) mod 4294967296"
proof -
  assume "0 < n"
  then obtain m where n: "n = Suc m" by (cases n) auto
  have "(m + 4294967296) mod 4294967296 = m mod 4294967296" by (rule mod_add_self2)
  then show ?thesis by (simp add: uint_minus_def n)
qed

lemma uint_minus_1_le: "0 < n \<Longrightarrow> uint_minus n 1 \<le> n - 1"
  using uint_minus_1 [of n] by simp

lemma get_pos_father_eq:
  "get_pos_father h i =
     (if i \<le> uint_minus (capacity h) 1
      then Inr (if i = 0 then 0 else uint_minus i 1 div 2)
      else Inl Assertion_failure)"
proof (cases "i = 0")
  case True
  then show ?thesis by (simp add: get_pos_father_def assert_in_range_eq rbind_simps)
next
  case False
  then have "uint_minus i 1 div 2 \<le> i" using uint_minus_1_le [of i] by simp
  then show ?thesis using False
    unfolding get_pos_father_def assert_in_range_eq Let_def double_to_uint_half
    by (simp add: rbind_simps)
qed

declare is_valid_loop.simps [simp del]
declare quantum_up.simps [simp del]
declare quantum_down.simps [simp del]

lemma assert_is_valid_eq: "assert_is_valid st h = Inr ()"
  by (simp add: assert_is_valid_def is_valid_def return_then_def rbind_simps c_assert_simps)

lemma capacity_Heap_Id: "capacity (Heap_Id cap) = cap"
  by (simp add: Heap_Id_def)

lemma uint_minus_1_small: "0 < n \<Longrightarrow> n < 4294967296 \<Longrightarrow> uint_minus n (Suc 0) = n - Suc 0"
  using uint_minus_1 [of n] by simp

lemma uint_minus_less: "uint_minus a b < 4294967296"
  by (simp add: uint_minus_def)

text \<open>
  Sums of \<open>float\<close>: exact on small integers, rounded to an even significand from
  \<open>2 ^ 24\<close> on, and every comparison with a NaN false.
\<close>

lemma float_add_examples:
  "float_add (Finite 1) (Finite 6) = Finite 7"
  "float_add (Finite 16777216) (Finite 1) = Finite 16777216"
  "float_add (Finite 16777216) (Finite 3) = Finite 16777220"
  "float_add (Finite (1 / 2)) (Finite (1 / 4)) = Finite (3 / 4)"
  "float_add Plus_infinity Minus_infinity = Not_a_number"
  "\<not> Not_a_number < Finite 0 \<and> \<not> Finite 0 < Not_a_number \<and> \<not> Not_a_number \<le> Not_a_number"
  by code_simp+

lemma inputs_are_floats:
  "weights_are_floats spec_example_graph" "weights_are_floats lost_vertex_graph"
  "weights_are_floats two_isolated_vertices" "weights_are_floats early_finalized_graph"
  "weights_are_floats far_vertices_graph"
  by code_simp+

section \<open>The heap operations keep the invariants\<close>

lemma wf_range:
  assumes "wf_heap st h" "i < capacity h"
  shows "assert_in_range i 0 (uint_minus (capacity h) 1) = Inr ()"
proof -
  have "0 < capacity h" "capacity h < 4294967296" using assms by (auto simp: wf_heap_def)
  then have "uint_minus (capacity h) (Suc 0) = capacity h - Suc 0" by (rule uint_minus_1_small)
  then show ?thesis using assms by (simp add: assert_in_range_eq)
qed

lemma wf_key:
  assumes "wf_heap st h" "i < nb_elem h"
  shows "\<exists>a k. elements h ! i = (Some a, snd (elements h ! i)) \<and> st a = Some k \<and> the_key st h i = k
           \<and> live h ! i = a"
proof -
  have "key_at st h i \<noteq> None" using assms by (simp add: wf_heap_def)
  then obtain a k where "fst (elements h ! i) = Some a" "st a = Some k"
    by (auto simp: key_at_def split: option.splits)
  moreover have "i < length (elements h)" using assms by (simp add: wf_heap_def)
  ultimately show ?thesis using assms
    by (auto simp: the_key_def key_at_def live_def prod_eq_iff)
qed

lemma lt_wf:
  assumes "wf_heap st h" "i < nb_elem h" "j < nb_elem h"
  shows "lt st h i j = Inr (the_key st h i < the_key st h j)"
proof -
  have c: "i < capacity h" "j < capacity h" "length (elements h) = capacity h"
    using assms by (auto simp: wf_heap_def)
  obtain a k where a: "elements h ! i = (Some a, snd (elements h ! i))" "st a = Some k" "the_key st h i = k"
    using wf_key [OF assms(1,2)] by blast
  obtain b l where b: "elements h ! j = (Some b, snd (elements h ! j))" "st b = Some l" "the_key st h j = l"
    using wf_key [OF assms(1,3)] by blast
  have fa: "fst (elements h ! i) = Some a" using a(1) by (metis fst_conv)
  have fb: "fst (elements h ! j) = Some b" using b(1) by (metis fst_conv)
  show ?thesis
    unfolding lt_def wf_range [OF assms(1) c(1)] wf_range [OF assms(1) c(2)]
    using c fa fb a(2,3) b(2,3)
    by (simp add: rbind_simps array_read_def deref_def init_read_def)
qed

lemma swap_wf:
  assumes "wf_heap st h" "i < capacity h" "j < capacity h"
  shows "swap h i j = Inr (swapped h i j)"
proof -
  have l: "length (elements h) = capacity h" "length (id_to_pos h) = capacity h"
    "snd (elements h ! i) < capacity h" "snd (elements h ! j) < capacity h"
    using assms by (auto simp: wf_heap_def)
  show ?thesis
    unfolding swap_def wf_range [OF assms(1,2)] wf_range [OF assms(1,3)]
    using l assms(2,3)
    by (simp add: rbind_simps array_read_def array_write_def Let_def swapped_def)
qed

lemma swapped_fields [simp]:
  "capacity (swapped h i j) = capacity h" "nb_elem (swapped h i j) = nb_elem h"
  "id_free (swapped h i j) = id_free h" "length (elements (swapped h i j)) = length (elements h)"
  "length (id_to_pos (swapped h i j)) = length (id_to_pos h)"
  by (simp_all add: swapped_def)

lemma swapped_nth:
  assumes "i < length (elements h)" "j < length (elements h)"
  shows "elements (swapped h i j) ! k =
           (if k = j then elements h ! i else if k = i then elements h ! j else elements h ! k)"
  using assms by (simp add: swapped_def nth_list_update)

lemma the_key_swapped:
  assumes "i < length (elements h)" "j < length (elements h)"
  shows "the_key st (swapped h i j) k =
           (if k = j then the_key st h i else if k = i then the_key st h j else the_key st h k)"
  by (simp add: the_key_def key_at_def swapped_nth [OF assms])

lemma wf_swapped:
  assumes "wf_heap st h" "i < nb_elem h" "j < nb_elem h"
  shows "wf_heap st (swapped h i j)"
proof -
  have l: "i < length (elements h)" "j < length (elements h)" using assms by (auto simp: wf_heap_def)
  have "key_at st (swapped h i j) k \<noteq> None" if "k < nb_elem h" for k
    using assms that by (auto simp: key_at_def swapped_nth [OF l] wf_heap_def)
  moreover have "snd (elements (swapped h i j) ! k) < capacity h" if "k < capacity h" for k
    using assms that l by (auto simp: swapped_nth [OF l] wf_heap_def)
  ultimately show ?thesis using assms by (simp add: wf_heap_def)
qed

lemma live_swapped:
  assumes "i < nb_elem h" "j < nb_elem h" "nb_elem h \<le> length (elements h)"
  shows "mset (live (swapped h i j)) = mset (live h)"
proof -
  let ?t = "take (nb_elem h) (elements h)"
  have len: "i < length ?t" "j < length ?t" using assms by simp_all
  have "take (nb_elem h) (elements (swapped h i j)) = ?t[i := ?t ! j, j := ?t ! i]"
    using assms by (simp add: swapped_def take_update_swap)
  moreover have "mset (?t[i := ?t ! j, j := ?t ! i]) = mset ?t"
    using len(2) len(1) by (rule mset_swap)
  ultimately have "mset (take (nb_elem h) (elements (swapped h i j))) = mset ?t" by simp
  then have "image_mset (\<lambda>n. the (fst n)) (mset (take (nb_elem h) (elements (swapped h i j))))
               = image_mset (\<lambda>n. the (fst n)) (mset ?t)" by simp
  then show ?thesis by (simp add: live_def)
qed


lemma sons_wf:
  assumes "wf_heap st h" "i < capacity h" "i < 2147483647"
  shows "get_pos_left_son h i = Inr (2 * i + 1)" "get_pos_right_son h i = Inr (2 * i + 2)"
proof -
  have "(2 * i + 1) mod 4294967296 = 2 * i + 1" "(2 * i + 2) mod 4294967296 = 2 * i + 2"
    using assms(3) by simp_all
  then show "get_pos_left_son h i = Inr (2 * i + 1)" "get_pos_right_son h i = Inr (2 * i + 2)"
    unfolding get_pos_left_son_def get_pos_right_son_def wf_range [OF assms(1,2)]
    by (simp_all add: rbind_simps uint_of_def)
qed

lemma father_wf:
  assumes "wf_heap st h" "i < capacity h"
  shows "get_pos_father h i = Inr ((i - 1) div 2)"
proof -
  have r: "i \<le> uint_minus (capacity h) 1"
    using wf_range [OF assms] by (simp add: assert_in_range_eq split: if_splits)
  have "i < 4294967296" using assms by (simp add: wf_heap_def)
  then have "0 < i \<Longrightarrow> uint_minus i (Suc 0) = i - Suc 0" by (simp add: uint_minus_1_small)
  then show ?thesis using r by (simp add: get_pos_father_eq)
qed

lemma raise_loop_ordered:
  assumes "wf_heap st h" "pos < nb_elem h"
    and "\<forall>j. 0 < j \<and> j < nb_elem h \<and> j \<noteq> pos \<longrightarrow> the_key st h ((j - 1) div 2) \<le> the_key st h j"
    and "\<forall>j. 0 < j \<and> j < nb_elem h \<and> (j - 1) div 2 = pos \<and> 0 < pos
            \<longrightarrow> the_key st h ((pos - 1) div 2) \<le> the_key st h j"
  shows "\<exists>h'. raise_loop st h pos ((pos - 1) div 2) = Some (Inr h') \<and> wf_heap st h' \<and> ordered st h'
           \<and> nb_elem h' = nb_elem h \<and> capacity h' = capacity h \<and> mset (live h') = mset (live h)"
  using assms
proof (induction pos arbitrary: h rule: less_induct)
  case (less pos)
  define pf where "pf = (pos - 1) div 2"
  let ?K = "the_key st h"
  have pf: "pf < nb_elem h" using less.prems(2) by (simp add: pf_def)
  have up: "\<forall>j. 0 < j \<and> j < nb_elem h \<and> j \<noteq> pos \<longrightarrow> ?K ((j - 1) div 2) \<le> ?K j"
    using less.prems(3) .
  have gp: "\<forall>j. 0 < j \<and> j < nb_elem h \<and> (j - 1) div 2 = pos \<and> 0 < pos \<longrightarrow> ?K pf \<le> ?K j"
    using less.prems(4) by (simp add: pf_def)
  have cap: "nb_elem h \<le> capacity h" "length (elements h) = capacity h"
    using less.prems(1) by (auto simp: wf_heap_def)
  have ltv: "lt st h pos pf = Inr (?K pos < ?K pf)"
    by (rule lt_wf [OF less.prems(1,2) pf])
  show ?case
  proof (cases "?K pos < ?K pf")
    case False
    have "ordered st h"
      unfolding ordered_def
    proof (intro allI impI)
      fix j assume j: "0 < j \<and> j < nb_elem h"
      show "?K ((j - 1) div 2) \<le> ?K j"
      proof (cases "j = pos")
        case True
        then show ?thesis using False by (simp add: pf_def)
      next
        case False
        then show ?thesis using up j by blast
      qed
    qed
    moreover have "raise_loop st h pos pf = Some (Inr h)"
      using False ltv by (subst raise_loop.simps) simp
    ultimately show ?thesis using less.prems(1) by (simp add: pf_def)
  next
    case True
    then have pos0: "0 < pos" by (cases "pos = 0") (auto simp: pf_def)
    then have pfless: "pf < pos" by (simp add: pf_def)
    have pfpos: "(pos - 1) div 2 = pf" by (simp add: pf_def)
    let ?h1 = "swapped h pos pf"
    let ?K1 = "the_key st ?h1"
    have len: "pos < length (elements h)" "pf < length (elements h)"
      using less.prems(2) pf cap by simp_all
    have K1: "\<And>k. ?K1 k = (if k = pf then ?K pos else if k = pos then ?K pf else ?K k)"
      by (rule the_key_swapped [OF len])
    have sw: "swap h pos pf = Inr ?h1"
      using less.prems(1,2) pf cap by (intro swap_wf) simp_all
    have wf1: "wf_heap st ?h1" by (rule wf_swapped [OF less.prems(1,2) pf])
    have fa: "get_pos_father ?h1 pf = Inr ((pf - 1) div 2)"
      using wf1 pf cap by (intro father_wf) simp_all
    have step: "raise_step h pos pf = Inr (?h1, pf, (pf - 1) div 2)"
      using sw fa by (simp add: raise_step_def rbind_simps Let_def)
    have unfold: "raise_loop st h pos pf = raise_loop st ?h1 pf ((pf - 1) div 2)"
      using True ltv step by (subst raise_loop.simps) simp
    have up1: "\<forall>j. 0 < j \<and> j < nb_elem ?h1 \<and> j \<noteq> pf \<longrightarrow> ?K1 ((j - 1) div 2) \<le> ?K1 j"
    proof (intro allI impI)
      fix j assume j: "0 < j \<and> j < nb_elem ?h1 \<and> j \<noteq> pf"
      then have jn: "0 < j" "j < nb_elem h" "j \<noteq> pf" by simp_all
      show "?K1 ((j - 1) div 2) \<le> ?K1 j"
      proof (cases "j = pos")
        case True
        then show ?thesis using \<open>?K pos < ?K pf\<close> pfless pfpos by (simp add: K1)
      next
        case jp: False
        have old: "?K ((j - 1) div 2) \<le> ?K j" using up jn jp by blast
        consider "(j - 1) div 2 = pos" | "(j - 1) div 2 = pf" "(j - 1) div 2 \<noteq> pos"
          | "(j - 1) div 2 \<noteq> pos" "(j - 1) div 2 \<noteq> pf" by blast
        then show ?thesis
        proof cases
          case 1
          have "?K pf \<le> ?K j" using gp jn 1 pos0 by blast
          then show ?thesis using 1 jp jn pfless by (simp add: K1)
        next
          case 2
          have "?K pos \<le> ?K j" using old 2 True by simp
          then show ?thesis using 2 jp jn by (simp add: K1)
        next
          case 3
          then show ?thesis using old jp jn by (simp add: K1)
        qed
      qed
    qed
    have gp1: "\<forall>j. 0 < j \<and> j < nb_elem ?h1 \<and> (j - 1) div 2 = pf \<and> 0 < pf
                 \<longrightarrow> ?K1 ((pf - 1) div 2) \<le> ?K1 j"
    proof (intro allI impI)
      fix j assume j: "0 < j \<and> j < nb_elem ?h1 \<and> (j - 1) div 2 = pf \<and> 0 < pf"
      then have jn: "0 < j" "j < nb_elem h" "(j - 1) div 2 = pf" "0 < pf" by simp_all
      have ppf: "(pf - 1) div 2 < pf" using jn(4) by simp
      have a: "?K ((pf - 1) div 2) \<le> ?K pf" using up jn(4) pf pfless by simp
      have jpf: "j \<noteq> pf" using jn(1,3) by presburger
      show "?K1 ((pf - 1) div 2) \<le> ?K1 j"
      proof (cases "j = pos")
        case True
        then show ?thesis using a ppf pfless by (simp add: K1)
      next
        case False
        have "?K pf \<le> ?K j" using up jn False by metis
        then show ?thesis using a False jpf ppf pfless by (simp add: K1)
      qed
    qed
    have "\<exists>h'. raise_loop st ?h1 pf ((pf - 1) div 2) = Some (Inr h') \<and> wf_heap st h' \<and> ordered st h'
           \<and> nb_elem h' = nb_elem ?h1 \<and> capacity h' = capacity ?h1 \<and> mset (live h') = mset (live ?h1)"
      using pf by (intro less.IH [OF pfless wf1 _ up1 gp1]) simp
    moreover have "mset (live ?h1) = mset (live h)"
      using less.prems(2) pf cap by (intro live_swapped) simp_all
    ultimately show ?thesis using unfold by (simp add: pf_def)
  qed
qed


lemma lower_loop_ordered:
  assumes "wf_heap st h" "pos \<le> nb_elem h"
    and "\<forall>j. 0 < j \<and> j < nb_elem h \<and> (j - 1) div 2 \<noteq> pos
            \<longrightarrow> the_key st h ((j - 1) div 2) \<le> the_key st h j"
    and "\<forall>j. 0 < j \<and> j < nb_elem h \<and> (j - 1) div 2 = pos \<and> 0 < pos
            \<longrightarrow> the_key st h ((pos - 1) div 2) \<le> the_key st h j"
    and "nb_elem h \<le> 2147483647"
  shows "\<exists>h'. lower_loop st h pos (2 * pos + 1) (2 * pos + 2) = Some (Inr h') \<and> wf_heap st h'
           \<and> ordered st h' \<and> nb_elem h' = nb_elem h \<and> capacity h' = capacity h
           \<and> mset (live h') = mset (live h)"
  using assms
proof (induction "nb_elem h - pos" arbitrary: h pos rule: less_induct)
  case less
  let ?n = "nb_elem h"
  let ?l = "2 * pos + 1"
  let ?r = "2 * pos + 2"
  let ?K = "the_key st h"
  note wf = less.prems(1)
  have cap: "?n \<le> capacity h" "length (elements h) = capacity h"
    using wf by (auto simp: wf_heap_def)
  have ltl: "lt st h ?l pos = Inr (?K ?l < ?K pos)" if "?l < ?n"
    using that by (intro lt_wf [OF wf]) simp_all
  have ltr: "lt st h ?r pos = Inr (?K ?r < ?K pos)" if "?r < ?n"
    using that by (intro lt_wf [OF wf]) simp_all
  have ltrl: "lt st h ?r ?l = Inr (?K ?r < ?K ?l)" if "?r < ?n"
    using that by (intro lt_wf [OF wf]) simp_all
  define c where "c \<longleftrightarrow> (?l < ?n \<and> ?K ?l < ?K pos) \<or> (?r < ?n \<and> ?K ?r < ?K pos)"
  have cond: "lower_cond st h pos ?l ?r = Inr c"
    using ltl ltr by (auto simp: lower_cond_def rbind_simps c_def)
  show ?case
  proof (cases c)
    case False
    have "ordered st h"
      unfolding ordered_def
    proof (intro allI impI)
      fix j assume j: "0 < j \<and> j < ?n"
      show "?K ((j - 1) div 2) \<le> ?K j"
      proof (cases "(j - 1) div 2 = pos")
        case True
        then have "j = ?l \<or> j = ?r" using j by presburger
        then have "\<not> ?K j < ?K pos" using False j by (auto simp: c_def)
        then show ?thesis using True by simp
      next
        case False
        then show ?thesis using less.prems(3) j by blast
      qed
    qed
    moreover have "lower_loop st h pos ?l ?r = Some (Inr h)"
      using False cond by (subst lower_loop.simps) simp
    ultimately show ?thesis using wf by simp
  next
    case True
    define t where "t = (if ?r < ?n \<and> ?K ?r < ?K ?l then ?r else ?l)"
    have tlr: "t = ?l \<or> t = ?r" by (simp add: t_def)
    have tn: "t < ?n" using True by (auto simp: t_def c_def)
    have tpos: "?K t < ?K pos" using True by (auto simp: t_def c_def)
    have tmin: "?K t \<le> ?K s" if "s = ?l \<or> s = ?r" "s < ?n" for s
      using that by (auto simp: t_def)
    have post: "pos < t" "(t - 1) div 2 = pos" "0 < t" using tlr by auto
    have posn: "pos < ?n" using post tn by simp
    let ?h1 = "swapped h pos t"
    let ?K1 = "the_key st ?h1"
    have len: "pos < length (elements h)" "t < length (elements h)"
      using posn tn cap by simp_all
    have K1: "\<And>k. ?K1 k = (if k = t then ?K pos else if k = pos then ?K t else ?K k)"
      by (rule the_key_swapped [OF len])
    have sw: "swap h pos t = Inr ?h1"
      using wf posn tn cap by (intro swap_wf) simp_all
    have wf1: "wf_heap st ?h1" by (rule wf_swapped [OF wf posn tn])
    have sons: "get_pos_left_son ?h1 t = Inr (2 * t + 1)" "get_pos_right_son ?h1 t = Inr (2 * t + 2)"
      using wf1 tn cap less.prems(5) by (simp_all add: sons_wf)
    have right: "(if ?r < ?n then lt st h ?r ?l else Inr False) = Inr (?r < ?n \<and> ?K ?r < ?K ?l)"
      using ltrl by simp
    have step: "lower_step st h pos ?l ?r = Inr (?h1, t, 2 * t + 1, 2 * t + 2)"
      unfolding lower_step_def right rbind_simps Let_def
      using sw sons by (simp add: t_def rbind_simps)
    have unfold: "lower_loop st h pos ?l ?r = lower_loop st ?h1 t (2 * t + 1) (2 * t + 2)"
      using True cond step by (subst lower_loop.simps) simp
    have down1: "\<forall>j. 0 < j \<and> j < nb_elem ?h1 \<and> (j - 1) div 2 \<noteq> t
                   \<longrightarrow> ?K1 ((j - 1) div 2) \<le> ?K1 j"
    proof (intro allI impI)
      fix j assume j: "0 < j \<and> j < nb_elem ?h1 \<and> (j - 1) div 2 \<noteq> t"
      then have jn: "0 < j" "j < ?n" "(j - 1) div 2 \<noteq> t" by simp_all
      consider "j = t" | "j = pos" | "j \<noteq> t" "j \<noteq> pos" "(j - 1) div 2 = pos"
        | "j \<noteq> t" "j \<noteq> pos" "(j - 1) div 2 \<noteq> pos" by blast
      then show "?K1 ((j - 1) div 2) \<le> ?K1 j"
      proof cases
        case 1
        then show ?thesis using tpos post by (simp add: K1)
      next
        case 2
        have q: "(pos - 1) div 2 < pos" using jn(1) 2 by simp
        have "?K ((pos - 1) div 2) \<le> ?K t" using less.prems(4) post tn jn(1) 2 by simp
        then show ?thesis using 2 q post by (simp add: K1)
      next
        case 3
        have "j = ?l \<or> j = ?r" using 3(3) jn(1) by presburger
        then have "?K t \<le> ?K j" using tmin jn(2) by blast
        then show ?thesis using 3 by (simp add: K1)
      next
        case 4
        have "?K ((j - 1) div 2) \<le> ?K j" using less.prems(3) jn 4 by blast
        then show ?thesis using 4 jn(3) by (simp add: K1)
      qed
    qed
    have gp1: "\<forall>j. 0 < j \<and> j < nb_elem ?h1 \<and> (j - 1) div 2 = t \<and> 0 < t
                 \<longrightarrow> ?K1 ((t - 1) div 2) \<le> ?K1 j"
    proof (intro allI impI)
      fix j assume j: "0 < j \<and> j < nb_elem ?h1 \<and> (j - 1) div 2 = t \<and> 0 < t"
      then have jn: "0 < j" "j < ?n" "(j - 1) div 2 = t" by simp_all
      have jt: "t < j" using jn(1,3) by presburger
      have "?K t \<le> ?K j" using less.prems(3) jn post by (metis nat_neq_iff)
      then show "?K1 ((t - 1) div 2) \<le> ?K1 j" using jt post by (simp add: K1)
    qed
    have "\<exists>h'. lower_loop st ?h1 t (2 * t + 1) (2 * t + 2) = Some (Inr h') \<and> wf_heap st h'
           \<and> ordered st h' \<and> nb_elem h' = nb_elem ?h1 \<and> capacity h' = capacity ?h1
           \<and> mset (live h') = mset (live ?h1)"
      using post tn less.prems(5) by (intro less.hyps [OF _ wf1 _ down1 gp1]) simp_all
    moreover have "mset (live ?h1) = mset (live h)"
      using posn tn cap by (intro live_swapped) simp_all
    ultimately show ?thesis using unfold by simp
  qed
qed


lemma root_is_least:
  assumes "ordered st h" "i < nb_elem h"
  shows "the_key st h 0 \<le> the_key st h i"
  using assms(2)
proof (induction i rule: less_induct)
  case (less i)
  show ?case
  proof (cases "i = 0")
    case True
    then show ?thesis by simp
  next
    case False
    then have "(i - 1) div 2 < i" by simp
    moreover have "the_key st h ((i - 1) div 2) \<le> the_key st h i"
      using assms(1) False less.prems by (simp add: ordered_def)
    ultimately show ?thesis using less.IH [of "(i - 1) div 2"] less.prems by simp
  qed
qed

lemma length_live: "nb_elem h \<le> length (elements h) \<Longrightarrow> length (live h) = nb_elem h"
  by (simp add: live_def)

lemma wf_Heap_Id: "cap < 4294967296 \<Longrightarrow> wf_heap st (Heap_Id cap)"
  by (simp add: wf_heap_def Heap_Id_def)

lemma ordered_Heap_Id: "ordered st (Heap_Id cap)"
  by (simp add: ordered_def Heap_Id_def)

lemma nb_elem_Heap_Id: "nb_elem (Heap_Id cap) = 0"
  by (simp add: Heap_Id_def)

lemma live_Heap_Id: "live (Heap_Id cap) = []"
  by (simp add: live_def Heap_Id_def)

lemma push_wf:
  assumes "wf_heap st h" "ordered st h" "nb_elem h < capacity h" "st v = Some k"
  shows "\<exists>h'. push st h v = Some (Inr (nb_elem h, h')) \<and> wf_heap st h' \<and> ordered st h'
           \<and> nb_elem h' = nb_elem h + 1 \<and> capacity h' = capacity h
           \<and> mset (live h') = add_mset v (mset (live h))"
proof -
  define n where "n = nb_elem h"
  define h1 where "h1 = h\<lparr>elements := (elements h)[n := (Some v, n)],
                          id_to_pos := (id_to_pos h)[n := Some n], nb_elem := n + 1\<rparr>"
  have wf: "capacity h < 4294967296" "length (elements h) = capacity h"
    "length (id_to_pos h) = capacity h" "id_free h = [0..<capacity h]"
    "\<forall>i<capacity h. snd (elements h ! i) < capacity h" "\<forall>i<n. key_at st h i \<noteq> None"
    using assms(1) by (auto simp: wf_heap_def n_def)
  have nc: "n < capacity h" using assms(3) by (simp add: n_def)
  have free: "array_read (id_free h) n = Inr n" using wf(4) nc by (simp add: array_read_def)
  have u1: "uint_of (n + 1) = n + 1" using nc wf(1) by (simp add: uint_of_def)
  have u2: "uint_minus (n + 1) 1 = n"
    using uint_minus_1_small [of "n + 1"] nc wf(1) by simp
  have eq1: "push st h v = obind (raise st h1 n) (\<lambda>h2. Some (Inr (n, h2)))"
    using nc wf(2,3) free u1 u2
    by (simp add: push_def assert_is_valid_eq obind_simps c_assert_simps array_write_def
        Let_def h1_def n_def [symmetric])
  have key1: "key_at st h1 i = (if i = n then Some k else key_at st h i)" if "i < capacity h" for i
    using that wf(2) assms(4) by (simp add: key_at_def h1_def nth_list_update)
  have wf1: "wf_heap st h1"
    unfolding wf_heap_def
  proof (intro conjI allI impI)
    show "\<And>i. i < capacity h1 \<Longrightarrow> snd (elements h1 ! i) < capacity h1"
      using wf(2,5) nc by (simp add: h1_def nth_list_update)
    show "\<And>i. i < nb_elem h1 \<Longrightarrow> key_at st h1 i \<noteq> None"
    proof -
      fix i assume "i < nb_elem h1"
      then have i: "i < n + 1" by (simp add: h1_def)
      then have "i < capacity h" using nc by simp
      then show "key_at st h1 i \<noteq> None" using key1 [of i] wf(6) i by (cases "i = n") auto
    qed
  qed (use wf nc in \<open>simp_all add: h1_def\<close>)
  have K1: "the_key st h1 i = the_key st h i" if "i < n" for i
    using that nc key1 [of i] by (simp add: the_key_def)
  have n1: "nb_elem h1 = n + 1" "capacity h1 = capacity h" by (simp_all add: h1_def)
  have up: "\<forall>j. 0 < j \<and> j < nb_elem h1 \<and> j \<noteq> n
              \<longrightarrow> the_key st h1 ((j - 1) div 2) \<le> the_key st h1 j"
  proof (intro allI impI)
    fix j assume "0 < j \<and> j < nb_elem h1 \<and> j \<noteq> n"
    then have j: "0 < j" "j < n" using n1 by simp_all
    then have "the_key st h ((j - 1) div 2) \<le> the_key st h j"
      using assms(2) by (simp add: ordered_def n_def)
    moreover have "(j - 1) div 2 < n" using j by simp
    ultimately show "the_key st h1 ((j - 1) div 2) \<le> the_key st h1 j" using j by (simp add: K1)
  qed
  have gp: "\<forall>j. 0 < j \<and> j < nb_elem h1 \<and> (j - 1) div 2 = n \<and> 0 < n
              \<longrightarrow> the_key st h1 ((n - 1) div 2) \<le> the_key st h1 j"
  proof (intro allI impI)
    fix j assume "0 < j \<and> j < nb_elem h1 \<and> (j - 1) div 2 = n \<and> 0 < n"
    then have "j < n + 1" "(j - 1) div 2 = n" "0 < n" using n1 by simp_all
    then have False by presburger
    then show "the_key st h1 ((n - 1) div 2) \<le> the_key st h1 j" ..
  qed
  obtain h2 where h2: "raise_loop st h1 n ((n - 1) div 2) = Some (Inr h2)" "wf_heap st h2" "ordered st h2"
    "nb_elem h2 = nb_elem h1" "capacity h2 = capacity h1" "mset (live h2) = mset (live h1)"
    using raise_loop_ordered [OF wf1 _ up gp] n1 by auto
  have fa: "get_pos_father h1 n = Inr ((n - 1) div 2)"
    using wf1 nc n1 by (intro father_wf) simp_all
  have ra: "raise st h1 n = Some (Inr h2)"
    using wf_range [OF wf1, of n] nc n1 fa h2(1)
    by (simp add: raise_def obind_simps assert_is_valid_eq)
  have "take (n + 1) ((elements h)[n := (Some v, n)]) = take n (elements h) @ [(Some v, n)]"
    using nc wf(2) by (simp add: take_Suc_conv_app_nth)
  then have "live h1 = live h @ [v]" by (simp add: live_def h1_def n_def)
  then have "mset (live h2) = add_mset v (mset (live h))" using h2(6) by simp
  then show ?thesis using eq1 ra h2 n1 by (simp add: obind_simps n_def)
qed

lemma pop_wf:
  assumes "wf_heap st h" "ordered st h" "0 < nb_elem h" "nb_elem h \<le> 2147483648"
  shows "\<exists>a h'. pop st h = Some (Inr (a, h')) \<and> wf_heap st h' \<and> ordered st h'
           \<and> nb_elem h' = nb_elem h - 1 \<and> capacity h' = capacity h
           \<and> mset (live h) = add_mset a (mset (live h'))
           \<and> (\<forall>b \<in> set (live h). the (st a) \<le> the (st b))"
proof -
  define n where "n = nb_elem h"
  define m where "m = n - 1"
  have wf: "capacity h < 4294967296" "length (elements h) = capacity h" "n \<le> capacity h"
    using assms(1) by (auto simp: wf_heap_def n_def)
  have nm: "n = Suc m" using assms(3) by (simp add: n_def m_def)
  have nb: "nb_elem h = Suc m" using nm by (simp add: n_def)
  have u: "uint_minus (Suc m) (Suc 0) = m" using uint_minus_1_small [of n] nm wf by simp
  define h1 where "h1 = swapped h 0 m"
  define h2 where "h2 = h1\<lparr>nb_elem := m\<rparr>"
  have sw: "swap h 0 m = Inr h1"
    unfolding h1_def using nm wf by (intro swap_wf [OF assms(1)]) simp_all
  obtain a k where a: "elements h ! 0 = (Some a, snd (elements h ! 0))" "st a = Some k"
      "the_key st h 0 = k" "live h ! 0 = a"
    using wf_key [OF assms(1,3)] by blast
  have fa: "fst (elements h ! 0) = Some a" using a(1) by (metis fst_conv)
  have len: "0 < length (elements h)" "m < length (elements h)" using nm wf by simp_all
  have popped: "elements h1 ! m = elements h ! 0"
    unfolding h1_def by (simp add: swapped_nth [OF len])
  have rd: "array_read (elements h1) m = Inr (elements h ! 0)"
    using popped len by (simp add: array_read_def h1_def)
  have wf1: "wf_heap st h1"
    unfolding h1_def using nb by (intro wf_swapped [OF assms(1)]) simp_all
  have wf2: "wf_heap st h2"
    using wf1 nb by (auto simp: wf_heap_def h2_def h1_def key_at_def)
  have K2: "the_key st h2 i = the_key st h i" if "0 < i" "i < m" for i
  proof -
    have "the_key st h2 i = the_key st h1 i" by (simp add: the_key_def key_at_def h2_def)
    then show ?thesis using that by (simp add: h1_def the_key_swapped [OF len])
  qed
  have n2: "nb_elem h2 = m" "capacity h2 = capacity h" by (simp_all add: h2_def h1_def)
  have m31: "nb_elem h2 \<le> 2147483647" using n2 nb assms(4) by simp
  have z: "(0::nat) < 2147483647" by simp
  have down: "\<forall>j. 0 < j \<and> j < nb_elem h2 \<and> (j - 1) div 2 \<noteq> 0
                \<longrightarrow> the_key st h2 ((j - 1) div 2) \<le> the_key st h2 j"
  proof (intro allI impI)
    fix j assume "0 < j \<and> j < nb_elem h2 \<and> (j - 1) div 2 \<noteq> 0"
    then have j: "0 < j" "j < m" "0 < (j - 1) div 2" using n2 by simp_all
    have "the_key st h ((j - 1) div 2) \<le> the_key st h j"
      using assms(2) j nb by (simp add: ordered_def)
    moreover have "(j - 1) div 2 < m" using j by simp
    ultimately show "the_key st h2 ((j - 1) div 2) \<le> the_key st h2 j" using j by (simp add: K2)
  qed
  have gp: "\<forall>j. 0 < j \<and> j < nb_elem h2 \<and> (j - 1) div 2 = 0 \<and> 0 < (0::nat)
              \<longrightarrow> the_key st h2 ((0 - 1) div 2) \<le> the_key st h2 j"
    by simp
  obtain h3 where h3: "lower_loop st h2 0 (2 * 0 + 1) (2 * 0 + 2) = Some (Inr h3)" "wf_heap st h3"
    "ordered st h3" "nb_elem h3 = nb_elem h2" "capacity h3 = capacity h2"
    "mset (live h3) = mset (live h2)"
    using lower_loop_ordered [OF wf2 _ down gp m31] by auto
  have c0: "0 < capacity h2" using nm wf n2 by simp
  have lo: "lower st h2 0 = Some (Inr h3)"
    using wf_range [OF wf2 c0] sons_wf [OF wf2 c0 z] h3(1)
    by (simp add: lower_def obind_simps assert_is_valid_eq)
  have eq: "pop st h = Some (Inr (a, h3))"
    using sw rd lo fa u nb
    by (simp add: pop_def obind_simps assert_is_valid_eq Let_def init_read_def h2_def h1_def)
  have "take (Suc m) (elements h1) = take m (elements h1) @ [elements h1 ! m]"
    using len by (simp add: h1_def take_Suc_conv_app_nth)
  then have "live h1 = live h2 @ [a]"
    using popped fa nb by (simp add: live_def h2_def h1_def)
  moreover have "mset (live h1) = mset (live h)"
    unfolding h1_def using nb wf by (intro live_swapped) (simp_all add: n_def)
  ultimately have ms: "mset (live h) = add_mset a (mset (live h3))" using h3(6) by simp
  have least: "the (st a) \<le> the (st b)" if "b \<in> set (live h)" for b
  proof -
    have ll: "length (live h) = n" using wf by (simp add: length_live n_def)
    have "\<exists>i<length (live h). live h ! i = b"
      using that by (simp only: in_set_conv_nth)
    then obtain i where i0: "i < length (live h)" "live h ! i = b" by blast
    have i: "i < n" "live h ! i = b" using i0 ll by simp_all
    obtain b' k' where "st b' = Some k'" "the_key st h i = k'" "live h ! i = b'"
      using wf_key [OF assms(1), of i] i by (auto simp: n_def)
    moreover have "the_key st h 0 \<le> the_key st h i"
      using root_is_least [OF assms(2)] i by (simp add: n_def)
    ultimately show ?thesis using a i by simp
  qed
  show ?thesis using eq h3 n2 ms least nb by auto
qed

lemma calls_append:
  "calls c (xs @ ys) = obind (calls c xs) (\<lambda>c'. calls c' ys)"
  by (induction xs arbitrary: c) (auto simp: obind_def split: option.splits sum.splits)

lemma calls_pushes:
  assumes "wf_heap (store c) (the_heap c)" "ordered (store c) (the_heap c)"
    "nb_elem (the_heap c) + length xs \<le> capacity (the_heap c)" "\<forall>a\<in>set xs. store c a \<noteq> None"
  shows "\<exists>c'. calls c (map Push xs) = Some (Inr c') \<and> store c' = store c \<and> popped c' = popped c
           \<and> wf_heap (store c) (the_heap c') \<and> ordered (store c) (the_heap c')
           \<and> nb_elem (the_heap c') = nb_elem (the_heap c) + length xs
           \<and> mset (live (the_heap c')) = mset (live (the_heap c)) + mset xs"
  using assms
proof (induction xs arbitrary: c)
  case Nil
  then show ?case by simp
next
  case (Cons x xs)
  obtain k where k: "store c x = Some k" using Cons.prems(4) by auto
  have "nb_elem (the_heap c) < capacity (the_heap c)" using Cons.prems(3) by simp
  then obtain h' where h': "push (store c) (the_heap c) x = Some (Inr (nb_elem (the_heap c), h'))"
    "wf_heap (store c) h'" "ordered (store c) h'" "nb_elem h' = nb_elem (the_heap c) + 1"
    "capacity h' = capacity (the_heap c)" "mset (live h') = add_mset x (mset (live (the_heap c)))"
    using push_wf [OF Cons.prems(1,2) _ k] by blast
  define c1 where "c1 = c\<lparr>the_heap := h', pushed := pushed c @ [(x, nb_elem (the_heap c))]\<rparr>"
  have step: "call c (Push x) = Some (Inr c1)" using h'(1) by (simp add: obind_simps c1_def)
  have "\<exists>c'. calls c1 (map Push xs) = Some (Inr c') \<and> store c' = store c1 \<and> popped c' = popped c1
           \<and> wf_heap (store c1) (the_heap c') \<and> ordered (store c1) (the_heap c')
           \<and> nb_elem (the_heap c') = nb_elem (the_heap c1) + length xs
           \<and> mset (live (the_heap c')) = mset (live (the_heap c1)) + mset xs"
    using h' Cons.prems(3,4) by (intro Cons.IH) (simp_all add: c1_def)
  then show ?case using step h' by (auto simp: c1_def)
qed

lemma calls_pops:
  assumes "wf_heap (store c) (the_heap c)" "ordered (store c) (the_heap c)"
    "n \<le> nb_elem (the_heap c)" "nb_elem (the_heap c) \<le> 2147483648"
  shows "\<exists>c' ys. calls c (replicate n Pop) = Some (Inr c') \<and> popped c' = popped c @ ys
           \<and> sorted (map (\<lambda>a. the (store c a)) ys)
           \<and> mset (live (the_heap c)) = mset ys + mset (live (the_heap c'))
           \<and> nb_elem (the_heap c') = nb_elem (the_heap c) - n
           \<and> wf_heap (store c) (the_heap c')"
  using assms
proof (induction n arbitrary: c)
  case 0
  then show ?case by simp
next
  case (Suc n)
  have "0 < nb_elem (the_heap c)" using Suc.prems(3) by simp
  then obtain a h' where h': "pop (store c) (the_heap c) = Some (Inr (a, h'))"
    "wf_heap (store c) h'" "ordered (store c) h'" "nb_elem h' = nb_elem (the_heap c) - 1"
    "mset (live (the_heap c)) = add_mset a (mset (live h'))"
    "\<forall>b \<in> set (live (the_heap c)). the (store c a) \<le> the (store c b)"
    using pop_wf [OF Suc.prems(1,2) _ Suc.prems(4)] by blast
  define c1 where "c1 = c\<lparr>the_heap := h', popped := popped c @ [a]\<rparr>"
  have step: "call c Pop = Some (Inr c1)" using h'(1) by (simp add: obind_simps c1_def)
  have "\<exists>c' ys. calls c1 (replicate n Pop) = Some (Inr c') \<and> popped c' = popped c1 @ ys
           \<and> sorted (map (\<lambda>a. the (store c1 a)) ys)
           \<and> mset (live (the_heap c1)) = mset ys + mset (live (the_heap c'))
           \<and> nb_elem (the_heap c') = nb_elem (the_heap c1) - n
           \<and> wf_heap (store c1) (the_heap c')"
    using h' Suc.prems(3,4) by (intro Suc.IH) (simp_all add: c1_def)
  then obtain c' ys where c': "calls c1 (replicate n Pop) = Some (Inr c')"
    "popped c' = popped c @ [a] @ ys" "sorted (map (\<lambda>a. the (store c a)) ys)"
    "mset (live h') = mset ys + mset (live (the_heap c'))"
    "nb_elem (the_heap c') = nb_elem h' - n" "wf_heap (store c) (the_heap c')"
    by (auto simp: c1_def)
  have "set ys \<subseteq> set (live (the_heap c))"
  proof
    fix y assume "y \<in> set ys"
    then have "y \<in># mset ys + mset (live (the_heap c'))" by simp
    then have "y \<in># mset (live h')" using c'(4) by simp
    then have "y \<in># mset (live (the_heap c))" using h'(5) by simp
    then show "y \<in> set (live (the_heap c))" by simp
  qed
  then have "sorted (map (\<lambda>a. the (store c a)) (a # ys))" using c'(3) h'(6) by auto
  moreover have "mset (live (the_heap c)) = mset (a # ys) + mset (live (the_heap c'))"
    using h'(5) c'(4) by simp
  ultimately show ?case
    using step c' h'(4) by (intro exI [of _ c'] exI [of _ "a # ys"]) simp
qed

section \<open>A run with more than \<open>2 ^ 31\<close> elements\<close>

lemma obind_Inr: "obind m (\<lambda>x. Some (Inr x)) = m"
  by (auto simp: obind_def split: option.splits sum.splits)

lemma wf_shrink: "wf_heap st h \<Longrightarrow> n \<le> nb_elem h \<Longrightarrow> wf_heap st (h\<lparr>nb_elem := n\<rparr>)"
  by (auto simp: wf_heap_def key_at_def)

lemma wf_appended:
  assumes "wf_heap st h" "nb_elem h < capacity h" "st v = Some k"
  shows "wf_heap st (appended h v)"
  unfolding wf_heap_def
proof (intro conjI allI impI)
  fix i assume "i < capacity (appended h v)"
  then show "snd (elements (appended h v) ! i) < capacity (appended h v)"
    using assms(1,2) by (auto simp: appended_def wf_heap_def nth_list_update)
next
  fix i assume "i < nb_elem (appended h v)"
  then show "key_at st (appended h v) i \<noteq> None"
    using assms by (auto simp: appended_def wf_heap_def key_at_def nth_list_update)
qed (use assms(1,2) in \<open>simp_all add: appended_def wf_heap_def\<close>)

lemma raise_unfold:
  assumes "wf_heap st h" "pos < nb_elem h"
  shows "raise st h pos = raise_loop st h pos ((pos - 1) div 2)"
proof -
  have c: "pos < capacity h" using assms by (simp add: wf_heap_def)
  show ?thesis
    using wf_range [OF assms(1) c] father_wf [OF assms(1) c]
    by (simp add: raise_def obind_simps assert_is_valid_eq obind_Inr)
qed

lemma push_unfold:
  assumes "wf_heap st h" "nb_elem h < capacity h"
  shows "push st h v
           = obind (raise st (appended h v) (nb_elem h)) (\<lambda>h2. Some (Inr (nb_elem h, h2)))"
proof -
  have wf: "capacity h < 4294967296" "length (elements h) = capacity h"
    "length (id_to_pos h) = capacity h" "id_free h = [0..<capacity h]"
    using assms(1) by (auto simp: wf_heap_def)
  have free: "array_read (id_free h) (nb_elem h) = Inr (nb_elem h)"
    using wf(4) assms(2) by (simp add: array_read_def)
  have u1: "uint_of (nb_elem h + 1) = nb_elem h + 1" using assms(2) wf(1) by (simp add: uint_of_def)
  have u2: "uint_minus (nb_elem h + 1) 1 = nb_elem h"
    using uint_minus_1_small [of "nb_elem h + 1"] assms(2) wf(1) by simp
  show ?thesis
    using assms(2) wf(2,3) free u1 u2
    by (simp add: push_def assert_is_valid_eq obind_simps c_assert_simps array_write_def
        Let_def appended_def)
qed

lemma push_filled:
  assumes "filled m h" "m < capacity h" "capacity h \<le> 2147483649"
  shows "\<exists>h'. push one_heavy h m = Some (Inr (m, h')) \<and> filled (Suc m) h'
           \<and> capacity h' = capacity h"
proof -
  have wf: "wf_heap one_heavy h" and nb: "nb_elem h = m"
    and at: "\<forall>i<m. fst (elements h ! i) = Some i"
    using assms(1) by (simp_all add: filled_def)
  have len: "length (elements h) = capacity h" using wf by (simp add: wf_heap_def)
  let ?h1 = "appended h m"
  have wf1: "wf_heap one_heavy ?h1"
    using wf assms(2) nb by (intro wf_appended [where k = "if m = 2147483648 then 1 else 0"])
      (simp_all add: one_heavy_def)
  have n1: "nb_elem ?h1 = Suc m" "capacity ?h1 = capacity h" using nb by (simp_all add: appended_def)
  have at1: "fst (elements ?h1 ! i) = Some i" if "i < Suc m" for i
    using that at nb len assms(2) by (cases "i = m") (simp_all add: appended_def)
  have key1: "the_key one_heavy ?h1 i = (if i = 2147483648 then 1 else 0)" if "i < Suc m" for i
    using at1 [OF that] by (simp add: the_key_def key_at_def one_heavy_def)
  let ?pf = "(m - 1) div 2"
  have pf: "?pf < Suc m" by simp
  have pf31: "?pf \<noteq> 2147483648 \<or> m = 0"
  proof -
    have "?pf \<le> m - 1" by simp
    moreover have "m - 1 < 2147483648" using assms(2,3) by linarith
    ultimately show ?thesis by linarith
  qed
  have "lt one_heavy ?h1 m ?pf = Inr (the_key one_heavy ?h1 m < the_key one_heavy ?h1 ?pf)"
    using n1 by (intro lt_wf [OF wf1]) simp_all
  moreover have "\<not> the_key one_heavy ?h1 m < the_key one_heavy ?h1 ?pf"
  proof (cases "m = 0")
    case True
    then show ?thesis by simp
  next
    case False
    then have "?pf \<noteq> 2147483648" using pf31 by simp
    then have "the_key one_heavy ?h1 ?pf = 0" using key1 [OF pf] by simp
    then show ?thesis by simp
  qed
  ultimately have "raise_loop one_heavy ?h1 m ?pf = Some (Inr ?h1)"
    by (subst raise_loop.simps) simp
  then have "raise one_heavy ?h1 m = Some (Inr ?h1)"
    using raise_unfold [OF wf1, of m] n1 by simp
  then have "push one_heavy h m = Some (Inr (m, ?h1))"
    using push_unfold [OF wf, of m] assms(2) nb by (simp add: obind_simps)
  moreover have "filled (Suc m) ?h1" using wf1 n1 at1 by (simp add: filled_def)
  ultimately show ?thesis using n1 by blast
qed

lemma calls_fill:
  assumes "filled m (the_heap c)" "store c = one_heavy" "m \<le> n" "n \<le> capacity (the_heap c)"
    "capacity (the_heap c) \<le> 2147483649"
  shows "\<exists>c'. calls c (map Push [m..<n]) = Some (Inr c') \<and> filled n (the_heap c')
           \<and> store c' = one_heavy \<and> capacity (the_heap c') = capacity (the_heap c)"
  using assms
proof (induction "n - m" arbitrary: m c)
  case 0
  then show ?case by simp
next
  case (Suc d)
  then have mn: "m < n" by simp
  then have mc: "m < capacity (the_heap c)" using Suc.prems(4) by simp
  obtain h' where h': "push one_heavy (the_heap c) m = Some (Inr (m, h'))" "filled (Suc m) h'"
    "capacity h' = capacity (the_heap c)"
    using push_filled [OF Suc.prems(1) mc Suc.prems(5)] by blast
  define c1 where "c1 = c\<lparr>the_heap := h', pushed := pushed c @ [(m, m)]\<rparr>"
  have step: "call c (Push m) = Some (Inr c1)"
    using h'(1) Suc.prems(2) by (simp add: obind_simps c1_def)
  have "\<exists>c'. calls c1 (map Push [Suc m..<n]) = Some (Inr c') \<and> filled n (the_heap c')
           \<and> store c' = one_heavy \<and> capacity (the_heap c') = capacity (the_heap c1)"
    using Suc.hyps(2) h' Suc.prems mn by (intro Suc.hyps(1)) (simp_all add: c1_def)
  moreover have "[m..<n] = m # [Suc m..<n]" using mn by (rule upt_conv_Cons)
  ultimately show ?case using step h'(3) by (auto simp: c1_def)
qed

lemma spine_key:
  assumes "on_spine p h" "i < 2147483648"
  shows "the_key one_heavy h i = (if i = p then 1 else 0)"
proof -
  obtain a where "fst (elements h ! i) = Some a" "a = 2147483648 \<longleftrightarrow> i = p"
    using assms by (auto simp: on_spine_def)
  then show ?thesis by (simp add: the_key_def key_at_def one_heavy_def)
qed

lemma spine_swap:
  assumes "on_spine p h" "p < 2147483648" "l < 2147483648" "p \<noteq> l"
  shows "on_spine l (swapped h p l)"
proof -
  have wf: "wf_heap one_heavy h" and cap: "capacity h = 2147483649" and nb: "nb_elem h = 2147483648"
    and at: "\<forall>i<2147483648. \<exists>a. fst (elements h ! i) = Some a \<and> (a = 2147483648 \<longleftrightarrow> i = p)"
    using assms(1) by (simp_all add: on_spine_def)
  have len0: "length (elements h) = capacity h" using wf by (simp add: wf_heap_def)
  have len: "p < length (elements h)" "l < length (elements h)"
    using assms(2,3) cap len0 by simp_all
  have wf1: "wf_heap one_heavy (swapped h p l)"
    using assms(2,3) nb by (intro wf_swapped [OF wf]) simp_all
  have "\<exists>a. fst (elements (swapped h p l) ! i) = Some a \<and> (a = 2147483648 \<longleftrightarrow> i = l)"
    if "i < 2147483648" for i
    using at that assms(2,3,4) by (auto simp: swapped_nth [OF len])
  then show ?thesis using wf1 cap nb by (simp add: on_spine_def)
qed

lemma spine_end:
  assumes "on_spine 2147483647 h"
  shows "lower_loop one_heavy h 2147483647 4294967295 0 = Some (Inl Assertion_failure)"
proof -
  have wf: "wf_heap one_heavy h" and cap: "capacity h = 2147483649" and nb: "nb_elem h = 2147483648"
    using assms by (simp_all add: on_spine_def)
  have "lt one_heavy h 0 2147483647
          = Inr (the_key one_heavy h 0 < the_key one_heavy h 2147483647)"
    using nb by (intro lt_wf [OF wf]) simp_all
  then have l0: "lt one_heavy h 0 2147483647 = Inr True"
    using spine_key [OF assms, of 0] spine_key [OF assms, of 2147483647] by simp
  have cond: "lower_cond one_heavy h 2147483647 4294967295 0 = Inr True"
    using l0 nb by (simp add: lower_cond_def rbind_simps)
  have "uint_minus (capacity h) 1 = 2147483648" using cap by (simp add: uint_minus_def)
  then have "lt one_heavy h 0 4294967295 = Inl Assertion_failure"
    by (simp add: lt_def assert_in_range_eq rbind_simps)
  then have step: "lower_step one_heavy h 2147483647 4294967295 0 = Inl Assertion_failure"
    using nb by (simp add: lower_step_def rbind_simps)
  show ?thesis using cond step by (subst lower_loop.simps) simp
qed

lemma spine_step:
  assumes "on_spine p h" "2 * p + 2 \<le> 2147483648"
  shows "lower_loop one_heavy h p (2 * p + 1) (2 * p + 2)
           = lower_loop one_heavy (swapped h p (2 * p + 1)) (2 * p + 1)
               (uint_of (2 * (2 * p + 1) + 1)) (uint_of (2 * (2 * p + 1) + 2))"
proof -
  have wf: "wf_heap one_heavy h" and cap: "capacity h = 2147483649" and nb: "nb_elem h = 2147483648"
    using assms(1) by (simp_all add: on_spine_def)
  let ?l = "2 * p + 1"
  let ?r = "2 * p + 2"
  have b: "p < 2147483648" "?l < 2147483648" "p \<noteq> ?l" using assms(2) by simp_all
  have "lt one_heavy h ?l p = Inr (the_key one_heavy h ?l < the_key one_heavy h p)"
    using nb b by (intro lt_wf [OF wf]) simp_all
  then have ll: "lt one_heavy h ?l p = Inr True"
    using spine_key [OF assms(1) b(2)] spine_key [OF assms(1) b(1)] by simp
  have cond: "lower_cond one_heavy h p ?l ?r = Inr True"
    using ll nb b by (simp add: lower_cond_def rbind_simps)
  have right: "(if ?r < nb_elem h then lt one_heavy h ?r ?l else Inr False) = Inr False"
  proof (cases "?r < 2147483648")
    case True
    have "lt one_heavy h ?r ?l = Inr (the_key one_heavy h ?r < the_key one_heavy h ?l)"
      using nb b True by (intro lt_wf [OF wf]) simp_all
    then show ?thesis
      using spine_key [OF assms(1) True] spine_key [OF assms(1) b(2)] nb True by simp
  next
    case False
    then show ?thesis using nb by simp
  qed
  have sw: "swap h p ?l = Inr (swapped h p ?l)"
    using b cap by (intro swap_wf [OF wf]) simp_all
  have wf1: "wf_heap one_heavy (swapped h p ?l)"
    using b nb by (intro wf_swapped [OF wf]) simp_all
  have c1: "?l < capacity (swapped h p ?l)" using b cap by simp
  have sons: "get_pos_left_son (swapped h p ?l) ?l = Inr (uint_of (2 * ?l + 1))"
    "get_pos_right_son (swapped h p ?l) ?l = Inr (uint_of (2 * ?l + 2))"
    unfolding get_pos_left_son_def get_pos_right_son_def wf_range [OF wf1 c1]
    by (simp_all add: rbind_simps)
  have step: "lower_step one_heavy h p ?l ?r
                = Inr (swapped h p ?l, ?l, uint_of (2 * ?l + 1), uint_of (2 * ?l + 2))"
    unfolding lower_step_def right rbind_simps Let_def
    using sw sons by (simp add: rbind_simps)
  show ?thesis using cond step by (subst lower_loop.simps) simp
qed

lemma spine_all:
  assumes "k \<le> 31" "on_spine (2 ^ k - 1) h"
  shows "lower_loop one_heavy h (2 ^ k - 1) (uint_of (2 * (2 ^ k - 1) + 1))
           (uint_of (2 * (2 ^ k - 1) + 2)) = Some (Inl Assertion_failure)"
  using assms
proof (induction "31 - k" arbitrary: k h)
  case 0
  then have k: "k = 31" by simp
  have "(2::nat) ^ 31 - 1 = 2147483647" by simp
  then show ?case using spine_end [of h] 0(3) by (simp add: k uint_of_def)
next
  case (Suc d)
  then have k: "Suc k \<le> 31" by simp
  define q :: nat where "q = 2 ^ k"
  have q1: "1 \<le> q" by (simp add: q_def)
  have "(2::nat) ^ Suc k \<le> 2 ^ 31" using k by (intro power_increasing) simp_all
  then have q31: "2 * q \<le> 2147483648" by (simp add: q_def)
  define p where "p = q - 1"
  have pq: "2 * p + 1 = 2 * q - 1" "2 * p + 2 = 2 * q" using q1 by (simp_all add: p_def)
  have sp: "on_spine p h" using Suc.prems(2) by (simp add: p_def q_def)
  have b: "2 * p + 2 \<le> 2147483648" using pq q31 by simp
  have u: "uint_of (2 * p + 1) = 2 * p + 1" "uint_of (2 * p + 2) = 2 * p + 2"
    using b by (simp_all add: uint_of_def)
  have sp1: "on_spine (2 * p + 1) (swapped h p (2 * p + 1))"
    using b by (intro spine_swap [OF sp]) simp_all
  have next_k: "2 ^ Suc k - 1 = 2 * p + 1" using pq by (simp add: q_def)
  have "lower_loop one_heavy (swapped h p (2 * p + 1)) (2 ^ Suc k - 1)
          (uint_of (2 * (2 ^ Suc k - 1) + 1)) (uint_of (2 * (2 ^ Suc k - 1) + 2))
        = Some (Inl Assertion_failure)"
    using Suc.hyps(2) k sp1 unfolding next_k [symmetric] by (intro Suc.hyps(1)) simp_all
  then have "lower_loop one_heavy h p (2 * p + 1) (2 * p + 2) = Some (Inl Assertion_failure)"
    unfolding next_k using spine_step [OF sp b] by simp
  then show ?case using u by (simp add: p_def q_def)
qed

lemma pop_fails:
  assumes "filled 2147483649 h" "capacity h = 2147483649"
  shows "pop one_heavy h = Some (Inl Assertion_failure)"
proof -
  have wf: "wf_heap one_heavy h" and nb: "nb_elem h = 2147483649"
    and at: "\<forall>i<2147483649. fst (elements h ! i) = Some i"
    using assms(1) by (simp_all add: filled_def)
  have len0: "length (elements h) = capacity h" using wf by (simp add: wf_heap_def)
  have len: "0 < length (elements h)" "2147483648 < length (elements h)"
    using len0 assms(2) by simp_all
  let ?h1 = "swapped h 0 2147483648"
  let ?h2 = "?h1\<lparr>nb_elem := 2147483648\<rparr>"
  have u: "uint_minus 2147483649 (Suc 0) = 2147483648" by (simp add: uint_minus_def)
  have sw: "swap h 0 2147483648 = Inr ?h1"
    using assms(2) by (intro swap_wf [OF wf]) simp_all
  have rd: "array_read (elements ?h1) 2147483648 = Inr (elements ?h1 ! 2147483648)"
    using len by (simp add: array_read_def)
  have wf1: "wf_heap one_heavy ?h1" using nb by (intro wf_swapped [OF wf]) simp_all
  have wf2: "wf_heap one_heavy ?h2" using nb by (intro wf_shrink [OF wf1]) simp
  have at2: "\<exists>a. fst (elements ?h2 ! i) = Some a \<and> (a = 2147483648 \<longleftrightarrow> i = 0)"
    if "i < 2147483648" for i
    using at that by (auto simp: swapped_nth [OF len])
  have sp: "on_spine (2 ^ 0 - 1) ?h2"
    using wf2 at2 assms(2) by (simp add: on_spine_def)
  have lo: "lower_loop one_heavy ?h2 0 (uint_of (2 * 0 + 1)) (uint_of (2 * 0 + 2))
              = Some (Inl Assertion_failure)"
    using spine_all [OF _ sp] by simp
  have c0: "0 < capacity ?h2" using assms(2) by simp
  have "lower one_heavy ?h2 0 = Some (Inl Assertion_failure)"
    using wf_range [OF wf2 c0] lo
    by (simp add: lower_def obind_simps get_pos_left_son_def get_pos_right_son_def rbind_simps)
  then show ?thesis
    using sw rd u nb
    by (simp add: pop_def obind_simps assert_is_valid_eq Let_def)
qed

lemma calls_pop_fails:
  "0 < n \<Longrightarrow> call c Pop = Some (Inl e) \<Longrightarrow> calls c (replicate n Pop) = Some (Inl e)"
  by (cases n) simp_all

section \<open>The claims\<close>

text \<open>
  C10. \<open>is_valid\<close> returns \<open>true\<close> for every heap state, so no \<open>assert(is_valid())\<close> can
  fail: the loop that would compare fathers and sons comes after the \<open>return\<close>. The
  second half exhibits a state whose root is above its son and whose \<open>id_to_pos\<close> is
  crossed: the loop would answer \<open>false\<close>, \<open>is_valid\<close> answers \<open>true\<close>.
\<close>

theorem is_valid_never_fails:
  "(\<forall>st h. is_valid (st :: addr \<Rightarrow> 'k::ord option) h = Inr True \<and> assert_is_valid st h = Inr ())
   \<and> is_valid_loop disordered_store disordered_heap 0 = Inr False
   \<and> \<not> heap_ordered disordered_store disordered_heap
   \<and> is_valid disordered_store disordered_heap = Inr True"
proof -
  have 1: "\<forall>st h. is_valid (st :: addr \<Rightarrow> 'k::ord option) h = Inr True \<and> assert_is_valid st h = Inr ()"
    by (simp add: assert_is_valid_eq) (simp add: is_valid_def return_then_def)
  have 2: "is_valid_loop disordered_store disordered_heap 0 = Inr False" by code_simp
  have 3: "\<not> heap_ordered disordered_store disordered_heap" by code_simp
  have 4: "is_valid disordered_store disordered_heap = Inr True"
    by (simp add: is_valid_def return_then_def)
  show ?thesis using 1 2 3 4 by blast
qed

text \<open>
  C9, as amended. For a legal position \<open>i\<close> (one that passes \<open>ASSERT_IN_RANGE\<close>), the sons
  are \<open>2i + 1\<close> and \<open>2i + 2\<close> reduced modulo \<open>2 ^ 32\<close>, which are \<open>2i + 1\<close> and \<open>2i + 2\<close>
  themselves when \<open>i < 2 ^ 31 - 1\<close>; the father is \<open>(i - 1) div 2\<close>, and \<open>0\<close> for the root.
\<close>

theorem son_and_father_positions:
  assumes "i \<le> uint_minus (capacity h) 1"
  shows "get_pos_left_son h i = Inr ((2 * i + 1) mod 4294967296)
       \<and> get_pos_right_son h i = Inr ((2 * i + 2) mod 4294967296)
       \<and> (i < 2147483647 \<longrightarrow> get_pos_left_son h i = Inr (2 * i + 1) \<and> get_pos_right_son h i = Inr (2 * i + 2))
       \<and> get_pos_father h i = Inr (if i = 0 then 0 else (i - 1) div 2)"
proof -
  have "i < 4294967296" using assms uint_minus_less [of "capacity h" 1] by simp
  then have f: "0 < i \<Longrightarrow> uint_minus i (Suc 0) = i - Suc 0" by (simp add: uint_minus_1_small)
  show ?thesis using assms f
    by (simp add: get_pos_left_son_def get_pos_right_son_def get_pos_father_eq
        assert_in_range_eq rbind_simps uint_of_def)
qed

theorem son_and_father_positions_witness:
  "get_pos_left_son (Heap_Id 4) 3 = Inr 7 \<and> get_pos_right_son (Heap_Id 4) 3 = Inr 8
   \<and> get_pos_father (Heap_Id 4) 3 = Inr 1 \<and> get_pos_father (Heap_Id 4) 0 = Inr 0"
proof -
  have c: "(3::nat) \<le> uint_minus (capacity (Heap_Id 4)) 1" "(0::nat) \<le> uint_minus (capacity (Heap_Id 4)) 1"
    by (simp_all add: capacity_Heap_Id uint_minus_def)
  show ?thesis
    using son_and_father_positions [OF c(1)] son_and_father_positions [OF c(2)] by simp
qed

text \<open>
  C9 as stated fails where \<open>2 * i + 1\<close> leaves the range of \<open>unsigned int\<close>: in a heap of
  capacity \<open>2 ^ 32 - 1\<close> the position \<open>2 ^ 31\<close> is legal and its left son is computed
  as \<open>1\<close>.
\<close>

theorem left_son_wraps_counterexample:
  "get_pos_left_son (Heap_Id 4294967295) 2147483648 = Inr 1
   \<and> get_pos_left_son (Heap_Id 4294967295) 2147483648 \<noteq> Inr (2 * 2147483648 + 1)"
  by (simp add: get_pos_left_son_def capacity_Heap_Id assert_in_range_eq rbind_simps
      uint_of_def uint_minus_def)

text \<open>
  C7, as amended. \<open>push\<close> on a heap that holds \<open>capacity\<close> elements stops on the failed
  assertion \<open>nb_elem < capacity\<close>; \<open>pop\<close> on an empty heap of capacity at least 1 stops on
  the failed range assertion of \<open>swap(0, nb_elem - 1)\<close>, where \<open>nb_elem - 1\<close> has wrapped
  to \<open>2 ^ 32 - 1\<close>.
\<close>

theorem push_pop_fail_fast:
  "(capacity h \<le> nb_elem h \<longrightarrow> push st h v = Some (Inl Assertion_failure))
   \<and> (nb_elem h = 0 \<and> 0 < capacity h \<and> capacity h < 4294967296
        \<longrightarrow> pop st h = Some (Inl Assertion_failure))"
proof -
  have a: "push st h v = Some (Inl Assertion_failure)" if "capacity h \<le> nb_elem h"
    using that by (simp add: push_def assert_is_valid_eq obind_simps c_assert_def)
  have b: "pop st h = Some (Inl Assertion_failure)"
    if "nb_elem h = 0" "0 < capacity h" "capacity h < 4294967296"
  proof -
    have "uint_minus (capacity h) (Suc 0) = capacity h - Suc 0"
      using that by (simp add: uint_minus_1_small)
    moreover have "uint_minus 0 (Suc 0) = 4294967295" by (simp add: uint_minus_def)
    moreover have "\<not> 4294967295 \<le> capacity h - Suc 0" using that by linarith
    ultimately have "swap h 0 (uint_minus (nb_elem h) 1) = Inl Assertion_failure"
      using that by (simp add: swap_def assert_in_range_eq rbind_simps)
    then show ?thesis by (simp add: pop_def assert_is_valid_eq obind_simps)
  qed
  show ?thesis using a b by blast
qed

theorem push_pop_fail_fast_witness:
  "push keys_1_5 \<lparr>capacity = 1, elements = [(Some 0, 0)], nb_elem = 1, id_to_pos = [Some 0], id_free = [0]\<rparr> 1
     = Some (Inl Assertion_failure)
   \<and> pop keys_1_5 (Heap_Id 1) = Some (Inl Assertion_failure)"
  using push_pop_fail_fast [of "\<lparr>capacity = 1, elements = [(Some 0, 0)], nb_elem = 1, id_to_pos = [Some 0], id_free = [0]\<rparr>" keys_1_5 1]
    push_pop_fail_fast [of "Heap_Id 1" keys_1_5 1]
  by (simp add: Heap_Id_def)

text \<open>
  C7 as stated fails twice. For \<open>reposition\<close>: with keys 1 and 5 at the addresses 0 and
  1, push both (ids 0 and 1), pop (the element at address 0 leaves), then call
  \<open>reposition(0)\<close> with the id of the popped element. No assertion fails in this run; the
  call returns with the popped element back at the root, \<open>nb_elem = 1\<close>, and the element
  at address 1 outside the heap. For \<open>pop\<close>: on the empty heap of capacity 0 both
  \<open>nb_elem - 1\<close> and \<open>capacity - 1\<close> wrap to \<open>2 ^ 32 - 1\<close>, the range assertions of
  \<open>swap\<close> hold, and \<open>swap\<close> reads \<open>elements[0]\<close> of an array without cells.
\<close>

theorem reposition_stale_handle_counterexample:
  "map_option (map_sum id (\<lambda>c. (pushed c, popped c, elements (the_heap c), nb_elem (the_heap c))))
     (calls (new_caller keys_1_5 2) [Push 0, Push 1, Pop, Reposition 0])
   = Some (Inr ([(0, 0), (1, 1)], [0], [(Some 0, 0), (Some 1, 1)], 1))
   \<and> pop keys_1_5 (Heap_Id 0) = Some (Inl Undefined_behaviour)"
  by code_simp

text \<open>
  C2 fails on this run (keys 1, 2, 10, 21 at the addresses 0 to 3, capacity 3). After
  three pushes and a pop, the fourth push gets id 2, the id of the element at address 2
  that is still in the heap; the heap is ordered. The key at address 2 is then lowered
  to 1 and \<open>reposition(2)\<close> called: \<open>id_to_pos[2]\<close> is the position of the newcomer, so
  the element at address 2 stays below a father with key 2.
\<close>

theorem heap_order_lost_after_reposition:
  "map_option (map_sum id (\<lambda>c. (pushed c, popped c, heap_ordered (store c) (the_heap c))))
     (calls (new_caller keys_handle_reuse 3) [Push 0, Push 1, Push 2, Pop, Push 3])
   = Some (Inr ([(0, 0), (1, 1), (2, 2), (3, 2)], [0], True))
   \<and> map_option (map_sum id (\<lambda>c. (map fst (elements (the_heap c)), nb_elem (the_heap c),
                                    map (store c) [1, 2, 3], heap_ordered (store c) (the_heap c))))
     (calls (new_caller keys_handle_reuse 3)
        [Push 0, Push 1, Push 2, Pop, Push 3, Assign 2 1, Reposition 2])
   = Some (Inr ([Some 1, Some 2, Some 3], 3, [Some 2, Some 1, Some 21], False))"
  by code_simp

text \<open>
  C3 fails on this run (capacity 2): the pushes of the addresses 0 and 1 return the ids
  0 and 1, the pop removes the element at address 0, and the next push returns id 1
  again while the element at address 1 is in the heap (at position 0). Afterwards
  \<open>id_to_pos[1] = 1\<close>, the position of the newcomer.
\<close>

theorem handle_returned_twice:
  "map_option (map_sum id (\<lambda>c. (pushed c, popped c, elements (the_heap c), nb_elem (the_heap c),
                                 id_to_pos (the_heap c))))
     (calls (new_caller keys_handle_reuse 2) [Push 0, Push 1, Pop, Push 2])
   = Some (Inr ([(0, 0), (1, 1), (2, 1)], [0], [(Some 1, 1), (Some 2, 1)], 2, [Some 1, Some 1]))"
  by code_simp

text \<open>
  The graph of the specification's example: the distances, the predecessors and the
  printed path are the ones C1 names.
\<close>

lemma spec_example_distances:
  "map_option (map_sum id vertices_dist) (compute_distances spec_example_graph 0 3)
   = Some (Inr [Some \<lparr>vd_i = 0, vd_distance = Finite 0, vd_from = 0\<rparr>,
                Some \<lparr>vd_i = 1, vd_distance = Finite 2, vd_from = 2\<rparr>,
                Some \<lparr>vd_i = 2, vd_distance = Finite 1, vd_from = 0\<rparr>,
                Some \<lparr>vd_i = 3, vd_distance = Finite 3, vd_from = 1\<rparr>])"
  by code_simp

lemma spec_example_path:
  "print_dijkstra spec_example_graph 0 3
   = Some (Inr [Vertex_line 3 (Finite 3), Vertex_line 1 (Finite 2), Vertex_line 2 (Finite 1),
                Literal_n0])"
  by code_simp

text \<open>
  A path whose distances round: vertex 2 lies at \<open>16777216 + 1\<close> from vertex 0, and
  the recorded and printed distance is \<open>16777216\<close>.
\<close>

lemma rounded_distance_path:
  "print_dijkstra far_vertices_graph 0 2
   = Some (Inr [Vertex_line 2 (Finite 16777216), Vertex_line 1 (Finite 16777216), Literal_n0])"
  by code_simp

text \<open>
  C1 fails on a graph with weights 0, 1, 5 and 6. Vertex 5 is reachable from 0 (by
  0, 1, 4, 5, at distance 7), but when the loop ends it was never visited: its id is
  \<open>id_undefined\<close> and its cell of \<open>vertices_dist\<close> was never assigned. Vertex 4 got id 2
  and was never popped: \<open>reposition\<close> swapped it out of the heap. Printing the path to 5
  reads the unassigned cell.
\<close>

theorem reachable_vertex_never_visited:
  "map_option (map_sum id (\<lambda>s. (vertices_ids s, vertices_dist s, nb_elem (heap s))))
     (compute_distances lost_vertex_graph 0 5)
   = Some (Inr ([id_treated, id_treated, id_treated, id_treated, 2, id_undefined],
                [Some \<lparr>vd_i = 0, vd_distance = Finite 0, vd_from = 0\<rparr>,
                 Some \<lparr>vd_i = 1, vd_distance = Finite 1, vd_from = 0\<rparr>,
                 Some \<lparr>vd_i = 2, vd_distance = Finite 5, vd_from = 0\<rparr>,
                 Some \<lparr>vd_i = 3, vd_distance = Finite 5, vd_from = 2\<rparr>,
                 Some \<lparr>vd_i = 4, vd_distance = Finite 6, vd_from = 1\<rparr>,
                 None], 0))
   \<and> print_dijkstra lost_vertex_graph 0 5 = Some (Inl Undefined_behaviour)"
  by code_simp

text \<open>
  C4 fails on two vertices without edges: vertex 1 is not reachable from 0, its cell of
  \<open>vertices_dist\<close> is never assigned, and the printing loop reads it. A target out of
  range does stop on the assertion.
\<close>

theorem unreachable_target_reads_indeterminate:
  "map_option (map_sum id vertices_dist) (compute_distances two_isolated_vertices 0 1)
     = Some (Inr [Some \<lparr>vd_i = 0, vd_distance = Finite 0, vd_from = 0\<rparr>, None])
   \<and> print_dijkstra two_isolated_vertices 0 1 = Some (Inl Undefined_behaviour)
   \<and> print_dijkstra two_isolated_vertices 0 2 = Some (Inl Assertion_failure)"
  by code_simp

text \<open>
  C6 fails on a graph with weights 0, 1, 2, 10 and 20. After three turns of the loop
  the vertices 0, 1 and 2 are finalized, vertex 2 with distance 2 from 0, while vertex 3
  waits in the heap with distance 1. The fourth turn pops vertex 3; its edge to 2 has
  weight 0, the test of line 119 holds, lines 120 and 121 overwrite the record of the
  finalized vertex 2 (distance 1, from 3), and \<open>reposition\<close> is called with \<open>id_treated\<close>
  converted to \<open>unsigned int\<close>, an index outside \<open>id_to_pos\<close>.
\<close>

theorem finalized_vertex_overwritten:
  "(case obind (dijkstra_init early_finalized_graph 0) (dijkstra_turns early_finalized_graph 3) of
      Some (Inr s) \<Rightarrow>
        vertices_ids s = [id_treated, id_treated, id_treated, 2, 2]
        \<and> vertices_dist s ! 2 = Some \<lparr>vd_i = 2, vd_distance = Finite 2, vd_from = 0\<rparr>
        \<and> vertices_dist s ! 3 = Some \<lparr>vd_i = 3, vd_distance = Finite 1, vd_from = 1\<rparr>
        \<and> map_option (map_sum id fst) (pop (dist_store (vertices_dist s)) (heap s)) = Some (Inr 3)
        \<and> update_distance (vertices_dist s) \<lparr>vd_i = 2, vd_distance = Finite 2, vd_from = 0\<rparr>
              \<lparr>vd_i = 3, vd_distance = Finite 1, vd_from = 1\<rparr> (2, Finite 0) ! 2
            = Some \<lparr>vd_i = 2, vd_distance = Finite 1, vd_from = 3\<rparr>
        \<and> uint_of_int (vertices_ids s ! 2) = 4294967294
        \<and> dijkstra_iteration early_finalized_graph s = Some (Inl Undefined_behaviour)
    | _ \<Rightarrow> False)
   \<and> compute_distances early_finalized_graph 0 2 = Some (Inl Undefined_behaviour)"
  by code_simp

text \<open>
  C8 fails with source and target 1 (two vertices, no edges). The table holds the
  record of vertex 1 with distance 0, but the output is the one line \<open>n0\<close>: it names
  vertex 0 and carries no distance. The printing loop writes \<open>n<i> <distance>\<close> for
  every other vertex of a path; the line of the source is a string literal.
\<close>

theorem source_line_is_literal_n0:
  "map_option (map_sum id vertices_dist) (compute_distances two_isolated_vertices 1 1)
     = Some (Inr [None, Some \<lparr>vd_i = 1, vd_distance = Finite 0, vd_from = 1\<rparr>])
   \<and> print_dijkstra two_isolated_vertices 1 1 = Some (Inr [Literal_n0])
   \<and> print_dijkstra two_isolated_vertices 1 1 \<noteq> Some (Inr [Vertex_line 1 (Finite 0)])"
  by code_simp

text \<open>
  C5, as amended. Take a heap of any capacity (an \<open>unsigned int\<close>, so below \<open>2 ^ 32\<close>)
  and \<open>n\<close> elements with keys, \<open>n\<close> at most the capacity and at most \<open>2 ^ 31\<close>. Pushing
  them in any order and popping \<open>n\<close> times returns: every push and pop succeeds, the
  popped elements are the pushed ones, and their keys come out in non-decreasing order.
\<close>

theorem pops_come_out_sorted:
  assumes "length xs \<le> cap" "cap < 4294967296" "length xs \<le> 2147483648"
    "\<forall>a\<in>set xs. st a \<noteq> None"
  shows "\<exists>c. calls (new_caller st cap) (map Push xs @ replicate (length xs) Pop) = Some (Inr c)
           \<and> sorted (map (\<lambda>a. the (st a)) (popped c)) \<and> mset (popped c) = mset xs"
proof -
  let ?c0 = "new_caller st cap"
  have c0: "store ?c0 = st" "the_heap ?c0 = Heap_Id cap" "popped ?c0 = []"
    by (simp_all add: new_caller_def)
  obtain c1 where c1: "calls ?c0 (map Push xs) = Some (Inr c1)" "store c1 = st" "popped c1 = []"
    "wf_heap st (the_heap c1)" "ordered st (the_heap c1)" "nb_elem (the_heap c1) = length xs"
    "mset (live (the_heap c1)) = mset xs"
    using calls_pushes [of ?c0 xs] assms
    by (auto simp: c0 wf_Heap_Id ordered_Heap_Id live_Heap_Id capacity_Heap_Id nb_elem_Heap_Id)
  obtain c2 ys where c2: "calls c1 (replicate (length xs) Pop) = Some (Inr c2)" "popped c2 = ys"
    "sorted (map (\<lambda>a. the (st a)) ys)" "mset xs = mset ys + mset (live (the_heap c2))"
    "nb_elem (the_heap c2) = 0" "wf_heap st (the_heap c2)"
    using calls_pops [of c1 "length xs"] c1 assms(3) by auto
  have "length (live (the_heap c2)) = 0"
    using c2(5,6) by (simp add: live_def)
  then have "mset xs = mset ys" using c2(4) by simp
  then show ?thesis using c1(1) c2 by (simp add: calls_append obind_simps)
qed


theorem pops_come_out_sorted_witness:
  "\<exists>c. calls (new_caller keys_handle_reuse 4) (map Push [2, 0, 3, 1] @ replicate (length [2, 0, 3, 1 :: nat]) Pop)
          = Some (Inr c)
       \<and> sorted (map (\<lambda>a. the (keys_handle_reuse a)) (popped c)) \<and> mset (popped c) = mset [2, 0, 3, 1]"
proof -
  have h: "length [2, 0, 3, 1 :: nat] \<le> 4" "(4::nat) < 4294967296"
    "length [2, 0, 3, 1 :: nat] \<le> 2147483648"
    "\<forall>a\<in>set [2, 0, 3, 1]. keys_handle_reuse a \<noteq> None"
    by (simp_all add: keys_handle_reuse_def)
  show ?thesis by (rule pops_come_out_sorted [OF h])
qed

text \<open>The same run evaluated: the keys 10, 1, 21, 2 come out as 1, 2, 10, 21.\<close>

lemma pops_example:
  "map_option (map_sum id popped)
     (calls (new_caller keys_handle_reuse 4) (map Push [2, 0, 3, 1] @ replicate 4 Pop))
   = Some (Inr [0, 1, 2, 3])"
  by code_simp

text \<open>
  C5 as stated fails with \<open>2 ^ 31 + 1\<close> elements in a heap of that capacity: all keys
  are 0 but the last pushed, which is 1. The first pop puts the key 1 at the root and
  \<open>lower\<close> takes it down the left spine to position \<open>2 ^ 31 - 1\<close>; there the right son
  \<open>2 * pos + 2\<close> wraps to 0 and the left son is \<open>2 ^ 32 - 1\<close>, so \<open>lt(pos_right_son,
  pos_left_son)\<close> fails its range assertion.
\<close>

theorem pop_aborts_beyond_2_31_counterexample:
  "calls (new_caller one_heavy 2147483649) (map Push [0..<2147483649] @ replicate 2147483649 Pop)
   = Some (Inl Assertion_failure)"
proof -
  let ?c0 = "new_caller one_heavy 2147483649"
  have c0: "store ?c0 = one_heavy" "the_heap ?c0 = Heap_Id 2147483649"
    by (simp_all add: new_caller_def)
  have f0: "filled 0 (the_heap ?c0)"
    unfolding c0 by (simp add: filled_def wf_Heap_Id nb_elem_Heap_Id)
  have cap0: "capacity (the_heap ?c0) = 2147483649" unfolding c0 by (rule capacity_Heap_Id)
  obtain c1 where c1: "calls ?c0 (map Push [0..<2147483649]) = Some (Inr c1)"
    "filled 2147483649 (the_heap c1)" "store c1 = one_heavy"
    "capacity (the_heap c1) = capacity (the_heap ?c0)"
    using calls_fill [OF f0 c0(1), of 2147483649] cap0 by auto
  have "pop one_heavy (the_heap c1) = Some (Inl Assertion_failure)"
    using c1(2,4) cap0 by (intro pop_fails) simp_all
  then have "call c1 Pop = Some (Inl Assertion_failure)"
    using c1(3) by (simp add: obind_simps)
  then have 2: "calls c1 (replicate 2147483649 Pop) = Some (Inl Assertion_failure)"
    by (intro calls_pop_fails) simp_all
  show ?thesis unfolding calls_append c1(1) obind_simps 2 ..
qed

end
